theory Spec2Isabelle
  imports Main "HOL-Library.Word"
begin

section \<open>Index sets and pointers to their records\<close>

text \<open>
  The global index type \<open>TG\<close> is a template parameter that only needs an order; it is
  instantiated with the integers. The attribute type \<open>TA\<close> is an enumeration; a value of
  it is the integer it converts to.
\<close>

type_synonym GlobalIndex = int
type_synonym Attribute = int

text \<open>
  Modelled from the spec: \<open>ParallelLocalIndex\<close> (plocalindex.hh), \<open>IndexPair\<close> and
  \<open>ParallelIndexSet\<close> (indexset.hh) are included by remoteindices.hh and are not part of
  the sources. The spec gives a local id an attribute and a public flag, an index record
  as the pair (G, L), and the index set as a sequence of such records with a sequence
  number \<open>seqNo()\<close>.
\<close>

record ParallelLocalIndex =
  localId :: nat
  attribute :: Attribute
  isPublic :: bool

record IndexPair =
  global :: GlobalIndex
  local :: ParallelLocalIndex

record ParallelIndexSet =
  pairs :: "IndexPair list"
  seqNo :: int

text \<open>
  Index sets are objects that the registry, the modifier and the remote index records
  refer to by address. \<open>IndexSets\<close> is the store of these objects (address to object);
  a \<open>const PairType*\<close> is either the null pointer or the address of a slot of one index
  set.
\<close>

type_synonym IndexSets = "nat \<Rightarrow> ParallelIndexSet"

datatype PairPtr = Null | Ptr nat nat

text \<open>
  How a run ends other than by returning. A \<open>fault\<close> is a point after which C++ gives
  the program no meaning (a null, dangling or end-iterator dereference, an array read
  out of bounds, a second \<open>delete\<close>, a read past the end of a message or at another
  type) or at which the process stops (a failed \<open>assert\<close>, a receive that no message
  answers): no state is left to speak of. The file has one exception,
  \<open>InvalidPosition\<close>; a throw leaves the state as it is at the throw.
\<close>

datatype fault =
    NullPointer
  | DanglingPointer
  | EndIterator
  | OutOfBounds
  | AssertionFailed
  | DoubleFree
  | BufferOverrun
  | TypeMismatch
  | Deadlock

datatype exn = InvalidPosition

datatype ('a, 's) result = Return 'a 's | Throw exn 's | Fault fault

text \<open>
  The two macros the code is compiled under: \<open>DUNE_ISTL_WITH_CHECKING\<close> switches the
  \<open>#ifdef\<close> blocks on, \<open>NDEBUG\<close> switches every \<open>assert\<close> off.
\<close>

record Build =
  withChecking :: bool
  ndebug :: bool

definition deref :: "IndexSets \<Rightarrow> PairPtr \<Rightarrow> fault + IndexPair" where
  "deref sets p =
     (case p of
        Null \<Rightarrow> Inl NullPointer
      | Ptr s i \<Rightarrow>
          if i < length (pairs (sets s)) then Inr (pairs (sets s) ! i)
          else Inl DanglingPointer)"

section \<open>Remote index records\<close>

text \<open>
  The members of \<open>RemoteIndex\<close>. The attribute is stored in a \<open>char\<close>, taken to be a
  signed byte: the constructors convert the attribute to it, and \<open>attribute()\<close> converts
  the byte back, so that an attribute outside the range of a byte does not read back as
  itself.
\<close>

record RemoteIndex =
  localIndex' :: PairPtr
  attribute' :: "8 word"

text \<open>The three constructors: (attribute, local), (attribute) and the parameterless one.\<close>

definition RemoteIndex_attr_local :: "Attribute \<Rightarrow> PairPtr \<Rightarrow> RemoteIndex" where
  "RemoteIndex_attr_local a l = \<lparr>localIndex' = l, attribute' = word_of_int a\<rparr>"

definition RemoteIndex_attr :: "Attribute \<Rightarrow> RemoteIndex" where
  "RemoteIndex_attr a = \<lparr>localIndex' = Null, attribute' = word_of_int a\<rparr>"

definition RemoteIndex_default :: RemoteIndex where
  "RemoteIndex_default = \<lparr>localIndex' = Null, attribute' = 0\<rparr>"

definition RemoteIndex_attribute :: "RemoteIndex \<Rightarrow> Attribute" where
  "RemoteIndex_attribute r = sint (attribute' r)"

definition localIndexPair :: "IndexSets \<Rightarrow> RemoteIndex \<Rightarrow> fault + IndexPair" where
  "localIndexPair sets r = deref sets (localIndex' r)"

text \<open>\<open>r.localIndexPair().global()\<close>, used throughout.\<close>

definition globalOf :: "IndexSets \<Rightarrow> RemoteIndex \<Rightarrow> fault + GlobalIndex" where
  "globalOf sets r =
     (case localIndexPair sets r of Inl e \<Rightarrow> Inl e | Inr p \<Rightarrow> Inr (global p))"

section \<open>Remote index lists and the heap that holds them\<close>

text \<open>
  Modelled from the spec: \<open>SLList\<close> and its iterators (dune/common/sllist.hh) are not
  part of the sources. The spec describes the remote index list as an ordered sequence
  of remote index records and the modifier as a cursor-style editor over it: insert
  advances the cursor to the position the record belongs to and inserts there, remove
  advances and unlinks, and an insertion followed at once by the removal of the same
  global index leaves the list unchanged. A list is a HOL list; an iterator is the
  position of the element it stands at, the end iterator being the length of the list.
  \<open>insert\<close> of a modify iterator puts the new element at the position of the iterator,
  in front of the element that stood there, and the iterator stands at the new element,
  where a removal that follows finds it; \<open>remove\<close> unlinks the element the iterator
  stands at and leaves the iterator on its successor.
\<close>

type_synonym RemoteIndexList = "RemoteIndex list"

definition iter_insert :: "'a \<Rightarrow> nat \<Rightarrow> 'a list \<Rightarrow> 'a list \<times> nat" where
  "iter_insert v i xs = (take i xs @ v # drop i xs, i)"

definition iter_remove :: "nat \<Rightarrow> 'a list \<Rightarrow> 'a list" where
  "iter_remove i xs = take i xs @ drop (Suc i) xs"

text \<open>
  The registry owns its lists through raw pointers (\<open>new RemoteIndexList()\<close>,
  \<open>delete\<close>). The heap maps the address of every live list to its content; \<open>new\<close>
  hands out an address never used before; \<open>delete\<close> of an address that holds no live
  list is a fault. \<open>freed\<close> is the sequence of addresses that \<open>delete\<close> has released.
\<close>

record Heap =
  cells :: "nat \<rightharpoonup> RemoteIndexList"
  nextFree :: nat
  freed :: "nat list"

definition new_list :: "Heap \<Rightarrow> nat \<times> Heap" where
  "new_list h =
     (nextFree h, h\<lparr>cells := (cells h)(nextFree h \<mapsto> []), nextFree := Suc (nextFree h)\<rparr>)"

definition delete_list :: "nat \<Rightarrow> Heap \<Rightarrow> fault + Heap" where
  "delete_list a h =
     (case cells h a of
        None \<Rightarrow> Inl DoubleFree
      | Some l \<Rightarrow> Inr (h\<lparr>cells := (cells h)(a := None), freed := freed h @ [a]\<rparr>))"

section \<open>The registry\<close>

text \<open>
  \<open>std::map<int, std::pair<RemoteIndexList*, RemoteIndexList*> >\<close>: an association list
  kept in ascending key order, the order in which the map is traversed. The keys are
  ranks, which are natural numbers; a list pointer is the address of the list. \<open>find\<close> is
  \<open>map_of\<close>, with \<open>None\<close> for \<open>end()\<close>; \<open>insert\<close> leaves an existing entry as it is. The
  first component of an entry is the send list, the second the receive list
  (\<open>std::make_pair(send,receive)\<close> in buildRemote, \<open>found->second.first\<close> for \<open>send\<close> in
  getModifier).
\<close>

type_synonym RemoteIndexMap = "(nat \<times> (nat \<times> nat)) list"

fun map_insert :: "nat \<Rightarrow> 'v \<Rightarrow> (nat \<times> 'v) list \<Rightarrow> (nat \<times> 'v) list" where
  "map_insert k v [] = [(k, v)]"
| "map_insert k v ((k', v') # es) =
     (if k < k' then (k, v) # (k', v') # es
      else if k = k' then (k', v') # es
      else (k', v') # map_insert k v es)"

text \<open>The communicator, as far as the code asks it: \<open>MPI_Comm_rank\<close> and \<open>MPI_Comm_size\<close>.\<close>

record MPI_Comm =
  commRank :: nat
  commSize :: nat

text \<open>
  The members of \<open>RemoteIndices\<close>. \<open>source'\<close> and \<open>target'\<close> are the addresses of the two
  index sets, so that \<open>source_ != target_\<close> compares addresses, as the code does.
\<close>

record RemoteIndices =
  source' :: nat
  target' :: nat
  comm' :: MPI_Comm
  sourceSeqNo' :: int
  destSeqNo' :: int
  publicIgnored :: bool
  firstBuild :: bool
  remoteIndices' :: RemoteIndexMap

definition RemoteIndices_ctor :: "nat \<Rightarrow> nat \<Rightarrow> MPI_Comm \<Rightarrow> RemoteIndices" where
  "RemoteIndices_ctor source destination comm =
     \<lparr>source' = source, target' = destination, comm' = comm,
      sourceSeqNo' = -1, destSeqNo' = -1, publicIgnored = False, firstBuild = True,
      remoteIndices' = []\<rparr>"

fun free_loop :: "RemoteIndexMap \<Rightarrow> Heap \<Rightarrow> fault + Heap" where
  "free_loop [] h = Inr h"
| "free_loop ((p, (fst_list, snd_list)) # rest) h =
     (if fst_list = snd_list then
        (case delete_list fst_list h of
           Inl f \<Rightarrow> Inl f
         | Inr h1 \<Rightarrow> free_loop rest h1)
      else
        (case delete_list fst_list h of
           Inl f \<Rightarrow> Inl f
         | Inr h1 \<Rightarrow>
             (case delete_list snd_list h1 of
                Inl f \<Rightarrow> Inl f
              | Inr h2 \<Rightarrow> free_loop rest h2)))"

definition free :: "RemoteIndices \<times> Heap \<Rightarrow> fault + RemoteIndices \<times> Heap" where
  "free w =
     (case free_loop (remoteIndices' (fst w)) (snd w) of
        Inl f \<Rightarrow> Inl f
      | Inr h \<Rightarrow> Inr ((fst w)\<lparr>remoteIndices' := [], firstBuild := True\<rparr>, h))"

definition neighbours :: "RemoteIndices \<Rightarrow> nat" where
  "neighbours r = length (remoteIndices' r)"

definition setIndexSets ::
  "nat \<Rightarrow> nat \<Rightarrow> MPI_Comm \<Rightarrow> RemoteIndices \<times> Heap \<Rightarrow> fault + RemoteIndices \<times> Heap" where
  "setIndexSets source destination comm w =
     (case free w of
        Inl f \<Rightarrow> Inl f
      | Inr (r, h) \<Rightarrow>
          Inr (r\<lparr>source' := source, target' := destination, comm' := comm,
                 firstBuild := True\<rparr>, h))"

text \<open>The destructor is \<open>free()\<close>.\<close>

definition RemoteIndices_dtor :: "RemoteIndices \<times> Heap \<Rightarrow> fault + RemoteIndices \<times> Heap" where
  "RemoteIndices_dtor w = free w"

definition isSynced :: "IndexSets \<Rightarrow> RemoteIndices \<Rightarrow> bool" where
  "isSynced sets r =
     (sourceSeqNo' r = seqNo (sets (source' r)) \<and> destSeqNo' r = seqNo (sets (target' r)))"

section \<open>The list modifier\<close>

text \<open>
  The members of \<open>RemoteIndexListModifier\<close>. \<open>rList'\<close> is the address of the list on the
  heap, \<open>iter'\<close> and \<open>giter'\<close> are positions in the list and in the shadow list \<open>glist'\<close>.
  The constructor leaves \<open>last_\<close> without a value; \<open>first_\<close> guards every read of it, and
  the model starts it at 0.
\<close>

record Modifier =
  rList' :: nat
  indexSet' :: nat
  glist' :: "GlobalIndex list"
  iter' :: nat
  giter' :: nat
  first' :: bool
  last' :: GlobalIndex

fun globals :: "IndexSets \<Rightarrow> RemoteIndexList \<Rightarrow> fault + GlobalIndex list" where
  "globals sets [] = Inr []"
| "globals sets (r # rs) =
     (case globalOf sets r of
        Inl f \<Rightarrow> Inl f
      | Inr g \<Rightarrow>
          (case globals sets rs of
             Inl f \<Rightarrow> Inl f
           | Inr gs \<Rightarrow> Inr (g # gs)))"

definition RemoteIndexListModifier ::
  "bool \<Rightarrow> IndexSets \<Rightarrow> Heap \<Rightarrow> nat \<Rightarrow> nat \<Rightarrow> fault + Modifier" where
  "RemoteIndexListModifier mode sets h indexSet rList =
     (case cells h rList of
        None \<Rightarrow> Inl DanglingPointer
      | Some l \<Rightarrow>
          (case (if mode then globals sets l else Inr []) of
             Inl f \<Rightarrow> Inl f
           | Inr gs \<Rightarrow>
               Inr \<lparr>rList' = rList, indexSet' = indexSet, glist' = gs, iter' = 0,
                    giter' = 0, first' = True, last' = 0\<rparr>))"

text \<open>
  \<open>getModifier<mode,send>(process)\<close>. \<open>found\<close> is the result of \<open>find\<close>; it is looked up
  again after the insertion only in the branch for identical index sets, as in the
  code. Dereferencing \<open>found\<close> when it is \<open>end()\<close> is a fault.
\<close>

definition getModifier ::
  "bool \<Rightarrow> bool \<Rightarrow> nat \<Rightarrow> IndexSets \<Rightarrow> RemoteIndices \<times> Heap \<Rightarrow>
     fault + Modifier \<times> RemoteIndices \<times> Heap" where
  "getModifier mode send process sets w =
     (let r0 = (fst w)\<lparr>sourceSeqNo' := seqNo (sets (source' (fst w))),
                       destSeqNo' := seqNo (sets (target' (fst w)))\<rparr>;
          h0 = snd w;
          found0 = map_of (remoteIndices' r0) process;
          (found, r1, h1) =
            (if found0 = None then
               (if source' r0 \<noteq> target' r0 then
                  (let (a, ha) = new_list h0; (b, hb) = new_list ha
                   in (found0,
                       r0\<lparr>remoteIndices' := map_insert process (a, b) (remoteIndices' r0)\<rparr>,
                       hb))
                else
                  (let (rlist, ha) = new_list h0;
                       ra = r0\<lparr>remoteIndices' :=
                                 map_insert process (rlist, rlist) (remoteIndices' r0)\<rparr>
                   in (map_of (remoteIndices' ra) process, ra, ha)))
             else (found0, r0, h0));
          r2 = r1\<lparr>firstBuild := False\<rparr>
      in case found of
           None \<Rightarrow> Inl EndIterator
         | Some (fst_list, snd_list) \<Rightarrow>
             (if send then
                (case RemoteIndexListModifier mode sets h1 (source' r2) fst_list of
                   Inl f \<Rightarrow> Inl f
                 | Inr m \<Rightarrow> Inr (m, r2, h1))
              else
                (case RemoteIndexListModifier mode sets h1 (target' r2) snd_list of
                   Inl f \<Rightarrow> Inl f
                 | Inr m \<Rightarrow> Inr (m, r2, h1))))"

text \<open>
  The \<open>#ifdef DUNE_ISTL_WITH_CHECKING\<close> test at the head of insert and remove:
  \<open>!first_ && g < last_\<close>, where \<open>g\<close> is read through the record's back-reference in the
  one-argument insert.
\<close>

definition outOfOrder :: "Build \<Rightarrow> Modifier \<Rightarrow> fault + GlobalIndex \<Rightarrow> fault + bool" where
  "outOfOrder cfg m g =
     (if withChecking cfg \<and> \<not> first' m then
        (case g of Inl f \<Rightarrow> Inl f | Inr x \<Rightarrow> Inr (x < last' m))
      else Inr False)"

text \<open>
  \<open>while(iter_ != end_ && iter_->localIndexPair().global() < bound) ++iter_;\<close> where
  \<open>bound\<close> is a global index (remove) or itself read through a back-reference (insert).
\<close>

function seekRemote ::
  "IndexSets \<Rightarrow> RemoteIndexList \<Rightarrow> fault + GlobalIndex \<Rightarrow> nat \<Rightarrow> fault + nat" where
  "seekRemote sets l bound i =
     (if i < length l then
        (case globalOf sets (l ! i) of
           Inl f \<Rightarrow> Inl f
         | Inr g \<Rightarrow>
             (case bound of
                Inl f \<Rightarrow> Inl f
              | Inr b \<Rightarrow> if g < b then seekRemote sets l bound (Suc i) else Inr i))
      else Inr i)"
  by pat_completeness auto
termination
  by (relation "measure (\<lambda>(sets, l, bound, i). length l - i)") auto

declare seekRemote.simps [simp del]

text \<open>\<open>while(iter_ != end_ && *giter_ < global) { ++giter_; ++iter_; }\<close>\<close>

function seekGlobal ::
  "GlobalIndex list \<Rightarrow> RemoteIndexList \<Rightarrow> GlobalIndex \<Rightarrow> nat \<Rightarrow> nat \<Rightarrow> fault + nat \<times> nat" where
  "seekGlobal gl l g gi i =
     (if i < length l then
        (if gi < length gl then
           (if gl ! gi < g then seekGlobal gl l g (Suc gi) (Suc i) else Inr (gi, i))
         else Inl EndIterator)
      else Inr (gi, i))"
  by pat_completeness auto
termination
  by (relation "measure (\<lambda>(gl, l, g, gi, i). length l - i)") auto

declare seekGlobal.simps [simp del]

text \<open>
  \<open>insert(const RemoteIndex& index)\<close>, for \<open>mode = false\<close>. The \<open>assert\<close> reads
  \<open>iter_==end_ || iter_->localIndexPair().global() != index.localIndexPair().global()\<close>.
\<close>

definition insert_index ::
  "Build \<Rightarrow> IndexSets \<Rightarrow> RemoteIndex \<Rightarrow> Heap \<times> Modifier \<Rightarrow> (unit, Heap \<times> Modifier) result" where
  "insert_index cfg sets index hm =
     (let h = fst hm; m = snd hm in
      case outOfOrder cfg m (globalOf sets index) of
        Inl f \<Rightarrow> Fault f
      | Inr True \<Rightarrow> Throw InvalidPosition (h, m)
      | Inr False \<Rightarrow>
          (case cells h (rList' m) of
             None \<Rightarrow> Fault DanglingPointer
           | Some l \<Rightarrow>
               (case seekRemote sets l (globalOf sets index) (iter' m) of
                  Inl f \<Rightarrow> Fault f
                | Inr i \<Rightarrow>
                    (case (if ndebug cfg \<or> \<not> i < length l then Inr True
                           else (case globalOf sets (l ! i) of
                                   Inl f \<Rightarrow> Inl f
                                 | Inr g \<Rightarrow>
                                     (case globalOf sets index of
                                        Inl f \<Rightarrow> Inl f
                                      | Inr gi \<Rightarrow> Inr (g \<noteq> gi)))) of
                       Inl f \<Rightarrow> Fault f
                     | Inr False \<Rightarrow> Fault AssertionFailed
                     | Inr True \<Rightarrow>
                         (case globalOf sets index of
                            Inl f \<Rightarrow> Fault f
                          | Inr g \<Rightarrow>
                              (let (l1, i1) = iter_insert index i l in
                               Return ()
                                 (h\<lparr>cells := (cells h)(rList' m \<mapsto> l1)\<rparr>,
                                  m\<lparr>iter' := i1, last' := g, first' := False\<rparr>)))))))"

text \<open>
  \<open>insert(const RemoteIndex& index, const GlobalIndex& global)\<close>, for \<open>mode = true\<close>. The
  \<open>assert\<close> reads \<open>iter_->localIndexPair().global() != global\<close>, without a test for the
  end of the list.
\<close>

definition insert_index_global ::
  "Build \<Rightarrow> IndexSets \<Rightarrow> RemoteIndex \<Rightarrow> GlobalIndex \<Rightarrow> Heap \<times> Modifier \<Rightarrow>
     (unit, Heap \<times> Modifier) result" where
  "insert_index_global cfg sets index g hm =
     (let h = fst hm; m = snd hm in
      case outOfOrder cfg m (Inr g) of
        Inl f \<Rightarrow> Fault f
      | Inr True \<Rightarrow> Throw InvalidPosition (h, m)
      | Inr False \<Rightarrow>
          (case cells h (rList' m) of
             None \<Rightarrow> Fault DanglingPointer
           | Some l \<Rightarrow>
               (case seekGlobal (glist' m) l g (giter' m) (iter' m) of
                  Inl f \<Rightarrow> Fault f
                | Inr (gi, i) \<Rightarrow>
                    (case (if ndebug cfg then Inr True
                           else if i < length l then
                             (case globalOf sets (l ! i) of
                                Inl f \<Rightarrow> Inl f
                              | Inr x \<Rightarrow> Inr (x \<noteq> g))
                           else Inl EndIterator) of
                       Inl f \<Rightarrow> Fault f
                     | Inr False \<Rightarrow> Fault AssertionFailed
                     | Inr True \<Rightarrow>
                         (let (l1, i1) = iter_insert index i l;
                              (gl1, gi1) = iter_insert g gi (glist' m) in
                          Return ()
                            (h\<lparr>cells := (cells h)(rList' m \<mapsto> l1)\<rparr>,
                             m\<lparr>glist' := gl1, iter' := i1, giter' := gi1, last' := g,
                               first' := False\<rparr>))))))"

text \<open>
  \<open>remove(const GlobalIndex& global)\<close>, for both modes. After the search the code reads
  \<open>*giter_\<close> (or \<open>iter_->localIndexPair()\<close>) without a test for the end of the list.
\<close>

definition remove_global ::
  "Build \<Rightarrow> bool \<Rightarrow> IndexSets \<Rightarrow> GlobalIndex \<Rightarrow> Heap \<times> Modifier \<Rightarrow>
     (bool, Heap \<times> Modifier) result" where
  "remove_global cfg mode sets g hm =
     (let h = fst hm; m = snd hm in
      case outOfOrder cfg m (Inr g) of
        Inl f \<Rightarrow> Fault f
      | Inr True \<Rightarrow> Throw InvalidPosition (h, m)
      | Inr False \<Rightarrow>
          (case cells h (rList' m) of
             None \<Rightarrow> Fault DanglingPointer
           | Some l \<Rightarrow>
               (if mode then
                  (case seekGlobal (glist' m) l g (giter' m) (iter' m) of
                     Inl f \<Rightarrow> Fault f
                   | Inr (gi, i) \<Rightarrow>
                       (if gi < length (glist' m) then
                          (if glist' m ! gi = g then
                             (if i < length l then
                                Return True
                                  (h\<lparr>cells := (cells h)(rList' m \<mapsto> iter_remove i l)\<rparr>,
                                   m\<lparr>glist' := iter_remove gi (glist' m), iter' := i,
                                     giter' := gi, last' := g, first' := False\<rparr>)
                              else Fault EndIterator)
                           else
                             Return False
                               (h, m\<lparr>iter' := i, giter' := gi, last' := g, first' := False\<rparr>))
                        else Fault EndIterator))
                else
                  (case seekRemote sets l (Inr g) (iter' m) of
                     Inl f \<Rightarrow> Fault f
                   | Inr i \<Rightarrow>
                       (if i < length l then
                          (case globalOf sets (l ! i) of
                             Inl f \<Rightarrow> Fault f
                           | Inr x \<Rightarrow>
                               (if x = g then
                                  Return True
                                    (h\<lparr>cells := (cells h)(rList' m \<mapsto> iter_remove i l)\<rparr>,
                                     m\<lparr>iter' := i, last' := g, first' := False\<rparr>)
                                else
                                  Return False
                                    (h, m\<lparr>iter' := i, last' := g, first' := False\<rparr>)))
                        else Fault EndIterator)))))"

text \<open>
  The overload of insert that a modifier of the given mode offers (the other one is
  refused at compile time by \<open>dune_static_assert\<close>).
\<close>

definition insert_mode ::
  "bool \<Rightarrow> Build \<Rightarrow> IndexSets \<Rightarrow> RemoteIndex \<Rightarrow> GlobalIndex \<Rightarrow> Heap \<times> Modifier \<Rightarrow>
     (unit, Heap \<times> Modifier) result" where
  "insert_mode mode cfg sets index g hm =
     (if mode then insert_index_global cfg sets index g hm else insert_index cfg sets index hm)"

text \<open>
  The storage blocks a registry map owns, in the order of traversal: one block for an
  entry whose two pointers are equal, two otherwise.
\<close>

fun blocks :: "RemoteIndexMap \<Rightarrow> nat list" where
  "blocks [] = []"
| "blocks ((p, (a, b)) # es) = (if a = b then [a] else [a, b]) @ blocks es"

section \<open>The collective iterator\<close>

text \<open>
  \<open>Map\<close> takes a rank to a pair of list iterators (current, end). The lists are not
  changed while a collective iterator is in use, so the pair is the part of the list
  from the current position to its end; the pair is at its end when that part is empty.
  The constructor leaves \<open>index_\<close> without a value: it takes the value that the member
  happens to hold as an argument.
\<close>

type_synonym IterMap = "(nat \<times> RemoteIndexList) list"

record CollectiveIterator =
  map' :: IterMap
  index' :: GlobalIndex

fun CollectiveIterator_loop :: "Heap \<Rightarrow> bool \<Rightarrow> RemoteIndexMap \<Rightarrow> IterMap \<Rightarrow> fault + IterMap" where
  "CollectiveIterator_loop h send [] m = Inr m"
| "CollectiveIterator_loop h send ((process, (fst_list, snd_list)) # rest) m =
     (case cells h (if send then fst_list else snd_list) of
        None \<Rightarrow> Inl DanglingPointer
      | Some l \<Rightarrow> CollectiveIterator_loop h send rest (map_insert process l m))"

definition CollectiveIterator_ctor ::
  "Heap \<Rightarrow> RemoteIndexMap \<Rightarrow> bool \<Rightarrow> GlobalIndex \<Rightarrow> fault + CollectiveIterator" where
  "CollectiveIterator_ctor h pmap send unset =
     (case CollectiveIterator_loop h send pmap [] of
        Inl f \<Rightarrow> Inl f
      | Inr m \<Rightarrow> Inr \<lparr>map' = m, index' = unset\<rparr>)"

text \<open>
  \<open>while(iter->second.first != iter->second.second &&
  iter->second.first->localIndexPair().global() < index) ++(iter->second.first);\<close>
\<close>

fun forward :: "IndexSets \<Rightarrow> GlobalIndex \<Rightarrow> RemoteIndexList \<Rightarrow> fault + RemoteIndexList" where
  "forward sets index [] = Inr []"
| "forward sets index (r # rs) =
     (case globalOf sets r of
        Inl f \<Rightarrow> Inl f
      | Inr g \<Rightarrow> if g < index then forward sets index rs else Inr (r # rs))"

fun advance_loop :: "IndexSets \<Rightarrow> GlobalIndex \<Rightarrow> IterMap \<Rightarrow> fault + IterMap" where
  "advance_loop sets index [] = Inr []"
| "advance_loop sets index ((process, cur) # rest) =
     (case forward sets index cur of
        Inl f \<Rightarrow> Inl f
      | Inr cur1 \<Rightarrow>
          (case advance_loop sets index rest of
             Inl f \<Rightarrow> Inl f
           | Inr rest1 \<Rightarrow> if cur1 = [] then Inr rest1 else Inr ((process, cur1) # rest1)))"

definition advance ::
  "IndexSets \<Rightarrow> GlobalIndex \<Rightarrow> CollectiveIterator \<Rightarrow> fault + CollectiveIterator" where
  "advance sets index it =
     (case advance_loop sets index (map' it) of
        Inl f \<Rightarrow> Inl f
      | Inr m \<Rightarrow> Inr \<lparr>map' = m, index' = index\<rparr>)"

definition is_empty :: "CollectiveIterator \<Rightarrow> bool" where
  "is_empty it = (map' it = [])"

text \<open>
  The nested class \<open>iterator\<close>: a position in the map, that is the part of the map from
  \<open>iter_\<close> to \<open>end_\<close>, with a copy of \<open>index_\<close>. \<open>skip_invalid\<close> is the loop shared by its
  constructor and \<open>operator++\<close>:
  \<open>while(iter_!=end_ && iter_->second.first->localIndexPair().global()!=index_) ++iter_;\<close>
  It reads through the list iterator without a test for the end of the list.
\<close>

fun skip_invalid :: "IndexSets \<Rightarrow> GlobalIndex \<Rightarrow> IterMap \<Rightarrow> fault + IterMap" where
  "skip_invalid sets index [] = Inr []"
| "skip_invalid sets index ((process, cur) # rest) =
     (case cur of
        [] \<Rightarrow> Inl EndIterator
      | r # rs \<Rightarrow>
          (case globalOf sets r of
             Inl f \<Rightarrow> Inl f
           | Inr g \<Rightarrow>
               if g \<noteq> index then skip_invalid sets index rest
               else Inr ((process, cur) # rest)))"

definition begin_iterator :: "IndexSets \<Rightarrow> CollectiveIterator \<Rightarrow> fault + IterMap" where
  "begin_iterator sets it = skip_invalid sets (index' it) (map' it)"

definition end_iterator :: "IndexSets \<Rightarrow> CollectiveIterator \<Rightarrow> fault + IterMap" where
  "end_iterator sets it = skip_invalid sets (index' it) []"

definition increment :: "IndexSets \<Rightarrow> GlobalIndex \<Rightarrow> IterMap \<Rightarrow> fault + IterMap" where
  "increment sets index pos =
     (case pos of [] \<Rightarrow> Inl EndIterator | e # rest \<Rightarrow> skip_invalid sets index rest)"

definition process_of :: "IterMap \<Rightarrow> fault + nat" where
  "process_of pos = (case pos of [] \<Rightarrow> Inl EndIterator | (process, cur) # rest \<Rightarrow> Inr process)"

definition star :: "IterMap \<Rightarrow> fault + RemoteIndex" where
  "star pos =
     (case pos of
        [] \<Rightarrow> Inl EndIterator
      | (process, cur) # rest \<Rightarrow> (case cur of [] \<Rightarrow> Inl EndIterator | r # rs \<Rightarrow> Inr r))"

text \<open>
  The traversal \<open>for(i = begin(); i != end(); ++i)\<close>, collecting \<open>i.process()\<close> and \<open>*i\<close>
  at every step. Two positions are equal when they are the same place of the map, so
  \<open>i != end()\<close> holds while the part from \<open>i\<close> on is not empty.
\<close>

function traverse ::
  "IndexSets \<Rightarrow> GlobalIndex \<Rightarrow> IterMap \<Rightarrow> fault + (nat \<times> RemoteIndex) list" where
  "traverse sets index pos =
     (if pos \<noteq> [] then
        (case process_of pos of
           Inl f \<Rightarrow> Inl f
         | Inr p \<Rightarrow>
             (case star pos of
                Inl f \<Rightarrow> Inl f
              | Inr r \<Rightarrow>
                  (case increment sets index pos of
                     Inl f \<Rightarrow> Inl f
                   | Inr pos1 \<Rightarrow>
                       (case traverse sets index pos1 of
                          Inl f \<Rightarrow> Inl f
                        | Inr ys \<Rightarrow> Inr ((p, r) # ys)))))
      else Inr [])"
  by pat_completeness auto
termination
proof (relation "measure (\<lambda>(sets, index, pos). length pos)")
  show "wf (measure (\<lambda>(sets, index, pos). length pos))" by simp
next
  fix sets index pos p r pos1
  assume ne: "pos \<noteq> []" and inc: "increment sets index pos = Inr pos1"
  have shorter: "length q \<le> length m" if "skip_invalid sets index m = Inr q" for m q
    using that by (induction m) (auto split: list.splits sum.splits if_splits)
  from ne inc obtain e rest where "pos = e # rest" "skip_invalid sets index rest = Inr pos1"
    by (cases pos) (auto simp: increment_def)
  with shorter[of rest pos1]
  show "((sets, index, pos1), (sets, index, pos)) \<in> measure (\<lambda>(sets, index, pos). length pos)"
    by simp
qed

declare traverse.simps [simp del]

definition iteration ::
  "IndexSets \<Rightarrow> CollectiveIterator \<Rightarrow> fault + (nat \<times> RemoteIndex) list" where
  "iteration sets it =
     (case begin_iterator sets it of
        Inl f \<Rightarrow> Inl f
      | Inr pos \<Rightarrow> traverse sets (index' it) pos)"

text \<open>
  What the spec says of \<open>advance\<close> and of the iteration, for comparison with the code:
  every cursor is forwarded while the global index of the referenced local record is
  smaller than the target, a peer whose cursor reaches the end is dropped, and the
  iteration yields the peers whose cursor references a record with the target index.
  \<open>referenced\<close> is the global index of the local record a remote record refers to.
\<close>

definition referenced :: "IndexSets \<Rightarrow> RemoteIndex \<Rightarrow> GlobalIndex" where
  "referenced sets r = (case globalOf sets r of Inl f \<Rightarrow> undefined | Inr g \<Rightarrow> g)"

definition advance_spec :: "IndexSets \<Rightarrow> GlobalIndex \<Rightarrow> IterMap \<Rightarrow> IterMap" where
  "advance_spec sets g m =
     filter (\<lambda>(p, cur). cur \<noteq> [])
       (map (\<lambda>(p, cur). (p, dropWhile (\<lambda>r. referenced sets r < g) cur)) m)"

definition iteration_spec :: "IndexSets \<Rightarrow> GlobalIndex \<Rightarrow> IterMap \<Rightarrow> (nat \<times> RemoteIndex) list" where
  "iteration_spec sets g m =
     map (\<lambda>(p, cur). (p, hd cur)) (filter (\<lambda>(p, cur). referenced sets (hd cur) = g) m)"

definition validReferences :: "IndexSets \<Rightarrow> IterMap \<Rightarrow> bool" where
  "validReferences sets m =
     list_all (\<lambda>(p, cur). list_all (\<lambda>r. case globalOf sets r of Inl f \<Rightarrow> False | Inr g \<Rightarrow> True) cur) m"

section \<open>Packed messages\<close>

text \<open>
  MPI is an external library; the model keeps of it what the code relies on. A packed
  buffer is the sequence of the items packed into it, and a position counts items.
  \<open>MPI_Pack\<close> writes one item at the position and moves the position behind it;
  \<open>MPI_Unpack\<close> reads the item at the position. The code packs a \<open>char\<close> (the flag
  \<open>sendTwo\<close>), two \<open>int\<close>s (the numbers of published indices, which are never
  negative) and index pairs. Reading past the last item of a received message, or an
  item of another type than the one asked for, is a fault.
\<close>

datatype Item = CharItem nat | IntItem nat | PairItem IndexPair

type_synonym Buffer = "Item list"

definition MPI_Pack :: "Item \<Rightarrow> Buffer \<Rightarrow> nat \<Rightarrow> Buffer \<times> nat" where
  "MPI_Pack x buf position = (take position buf @ [x], Suc position)"

definition MPI_Unpack :: "Buffer \<Rightarrow> nat \<Rightarrow> fault + Item \<times> nat" where
  "MPI_Unpack buf position =
     (if position < length buf then Inr (buf ! position, Suc position) else Inl BufferOverrun)"

definition MPI_Unpack_char :: "Buffer \<Rightarrow> nat \<Rightarrow> fault + nat \<times> nat" where
  "MPI_Unpack_char buf position =
     (case MPI_Unpack buf position of
        Inl f \<Rightarrow> Inl f
      | Inr (x, position1) \<Rightarrow>
          (case x of CharItem c \<Rightarrow> Inr (c, position1) | _ \<Rightarrow> Inl TypeMismatch))"

definition MPI_Unpack_int :: "Buffer \<Rightarrow> nat \<Rightarrow> fault + nat \<times> nat" where
  "MPI_Unpack_int buf position =
     (case MPI_Unpack buf position of
        Inl f \<Rightarrow> Inl f
      | Inr (x, position1) \<Rightarrow>
          (case x of IntItem n \<Rightarrow> Inr (n, position1) | _ \<Rightarrow> Inl TypeMismatch))"

definition MPI_Unpack_pair :: "Buffer \<Rightarrow> nat \<Rightarrow> fault + IndexPair \<times> nat" where
  "MPI_Unpack_pair buf position =
     (case MPI_Unpack buf position of
        Inl f \<Rightarrow> Inl f
      | Inr (x, position1) \<Rightarrow>
          (case x of PairItem p \<Rightarrow> Inr (p, position1) | _ \<Rightarrow> Inl TypeMismatch))"

section \<open>Packing the local indices\<close>

fun noPublic_loop :: "IndexPair list \<Rightarrow> nat \<Rightarrow> nat" where
  "noPublic_loop [] noPublic = noPublic"
| "noPublic_loop (index # rest) noPublic =
     (if isPublic (local index) then noPublic_loop rest (Suc noPublic)
      else noPublic_loop rest noPublic)"

definition noPublic :: "ParallelIndexSet \<Rightarrow> nat" where
  "noPublic indexSet = noPublic_loop (pairs indexSet) 0"

text \<open>
  \<open>packEntries\<close> walks the index set, packs every published record and stores its
  address in the next slot of \<open>pairs\<close>. The array is the sequence of the addresses
  stored so far; \<open>slot\<close> is the place of the record in the index set at address
  \<open>indexSet\<close>. The final \<open>assert(i==n)\<close> compares the number of stored addresses with the
  size the array was allocated with.
\<close>

fun packEntries_loop ::
  "bool \<Rightarrow> nat \<Rightarrow> IndexPair list \<Rightarrow> nat \<Rightarrow> PairPtr list \<Rightarrow> Buffer \<Rightarrow> nat \<Rightarrow>
     PairPtr list \<times> Buffer \<times> nat" where
  "packEntries_loop ignorePublic indexSet [] slot prs p_out position = (prs, p_out, position)"
| "packEntries_loop ignorePublic indexSet (index # rest) slot prs p_out position =
     (if ignorePublic \<or> isPublic (local index) then
        packEntries_loop ignorePublic indexSet rest (Suc slot) (prs @ [Ptr indexSet slot])
          (fst (MPI_Pack (PairItem index) p_out position))
          (snd (MPI_Pack (PairItem index) p_out position))
      else packEntries_loop ignorePublic indexSet rest (Suc slot) prs p_out position)"

definition packEntries ::
  "Build \<Rightarrow> bool \<Rightarrow> IndexSets \<Rightarrow> nat \<Rightarrow> Buffer \<Rightarrow> nat \<Rightarrow> nat \<Rightarrow>
     fault + PairPtr list \<times> Buffer \<times> nat" where
  "packEntries cfg ignorePublic sets indexSet p_out position n =
     (case packEntries_loop ignorePublic indexSet (pairs (sets indexSet)) 0 [] p_out position of
        (prs, p_out1, position1) \<Rightarrow>
          if \<not> ndebug cfg \<and> length prs \<noteq> n then Inl AssertionFailed
          else Inr (prs, p_out1, position1))"

section \<open>Unpacking a received list against the local indices\<close>

text \<open>
  \<open>local[i]\<close> reads a slot of an array of pointers, \<open>local[i]->global()\<close> follows it.
  The arrays have as many slots as addresses were stored; a read outside is a fault.
\<close>

definition ptrAt :: "PairPtr list \<Rightarrow> nat \<Rightarrow> fault + PairPtr" where
  "ptrAt locals i = (if i < length locals then Inr (locals ! i) else Inl OutOfBounds)"

definition pairAt :: "IndexSets \<Rightarrow> PairPtr list \<Rightarrow> nat \<Rightarrow> fault + IndexPair" where
  "pairAt sets locals i =
     (case ptrAt locals i of Inl f \<Rightarrow> Inl f | Inr p \<Rightarrow> deref sets p)"

text \<open>
  The one-list \<open>unpackIndices\<close>: its main loop, with the local variables \<open>index\<close>,
  \<open>n_in\<close> and \<open>localIndex\<close> and the list \<open>remote\<close> as arguments; a \<open>break\<close> returns.
\<close>

function unpackIndices_loop ::
  "IndexSets \<Rightarrow> PairPtr list \<Rightarrow> nat \<Rightarrow> Buffer \<Rightarrow> nat \<Rightarrow> RemoteIndexList \<Rightarrow> IndexPair \<Rightarrow>
     nat \<Rightarrow> nat \<Rightarrow> nat \<Rightarrow> fault + RemoteIndexList \<times> nat \<times> nat" where
  "unpackIndices_loop sets locals localEntries p_in remoteEntries remote index n_in
       localIndex position =
     (if localIndex < localEntries then
        (case pairAt sets locals localIndex of
           Inl f \<Rightarrow> Inl f
         | Inr lp \<Rightarrow>
             (if global lp = global index then
                (if Suc n_in < remoteEntries then
                   (case MPI_Unpack_pair p_in position of
                      Inl f \<Rightarrow> Inl f
                    | Inr next_index \<Rightarrow>
                        unpackIndices_loop sets locals localEntries p_in remoteEntries
                          (remote @ [RemoteIndex_attr_local (attribute (local index))
                                       (locals ! localIndex)])
                          (fst next_index) (Suc n_in) (Suc localIndex) (snd next_index))
                 else
                   Inr (remote @ [RemoteIndex_attr_local (attribute (local index))
                                    (locals ! localIndex)],
                        Suc n_in, position))
              else if global lp < global index then
                unpackIndices_loop sets locals localEntries p_in remoteEntries remote index
                  n_in (Suc localIndex) position
              else
                (if Suc n_in < remoteEntries then
                   (case MPI_Unpack_pair p_in position of
                      Inl f \<Rightarrow> Inl f
                    | Inr next_index \<Rightarrow>
                        unpackIndices_loop sets locals localEntries p_in remoteEntries remote
                          (fst next_index) (Suc n_in) localIndex (snd next_index))
                 else Inr (remote, Suc n_in, position))))
      else Inr (remote, n_in, position))"
  by pat_completeness auto
termination
  by (relation "measure (\<lambda>(sets, locals, localEntries, p_in, remoteEntries, remote, index,
                            n_in, localIndex, position).
                    (localEntries - localIndex) + (remoteEntries - n_in))") auto

declare unpackIndices_loop.simps [simp del]

text \<open>\<open>while(++n_in < remoteEntries) MPI_Unpack(...)\<close>: the rest of the list is skipped.\<close>

function unpackIndices_rest :: "Buffer \<Rightarrow> nat \<Rightarrow> nat \<Rightarrow> nat \<Rightarrow> fault + nat" where
  "unpackIndices_rest p_in remoteEntries n_in position =
     (if Suc n_in < remoteEntries then
        (case MPI_Unpack_pair p_in position of
           Inl f \<Rightarrow> Inl f
         | Inr next_index \<Rightarrow> unpackIndices_rest p_in remoteEntries (Suc n_in) (snd next_index))
      else Inr position)"
  by pat_completeness auto
termination
  by (relation "measure (\<lambda>(p_in, remoteEntries, n_in, position). remoteEntries - n_in)") auto

declare unpackIndices_rest.simps [simp del]

definition unpackIndices ::
  "IndexSets \<Rightarrow> RemoteIndexList \<Rightarrow> nat \<Rightarrow> PairPtr list \<Rightarrow> nat \<Rightarrow> Buffer \<Rightarrow> nat \<Rightarrow>
     fault + RemoteIndexList \<times> nat" where
  "unpackIndices sets remote remoteEntries locals localEntries p_in position =
     (if remoteEntries = 0 then Inr (remote, position)
      else
        (case MPI_Unpack_pair p_in position of
           Inl f \<Rightarrow> Inl f
         | Inr first_index \<Rightarrow>
             (case unpackIndices_loop sets locals localEntries p_in remoteEntries remote
                     (fst first_index) 0 0 (snd first_index) of
                Inl f \<Rightarrow> Inl f
              | Inr (remote1, n_in, position1) \<Rightarrow>
                  (case unpackIndices_rest p_in remoteEntries n_in position1 of
                     Inl f \<Rightarrow> Inl f
                   | Inr position2 \<Rightarrow> Inr (remote1, position2)))))"

text \<open>
  The two-list \<open>unpackIndices\<close>. \<open>advanceTo\<close> is each of its two inner loops,
  \<open>while(i < entries && local[i]->global() < index.global()) i++;\<close> and \<open>matchesAt\<close> the
  test \<open>i < entries && local[i]->global() == index.global()\<close>. The record pushed to the
  receive list takes its back-reference from \<open>localDest[sourceIndex]\<close>, as the code
  reads.
\<close>

function advanceTo ::
  "IndexSets \<Rightarrow> PairPtr list \<Rightarrow> nat \<Rightarrow> GlobalIndex \<Rightarrow> nat \<Rightarrow> fault + nat" where
  "advanceTo sets locals entries g i =
     (if i < entries then
        (case pairAt sets locals i of
           Inl f \<Rightarrow> Inl f
         | Inr lp \<Rightarrow> if global lp < g then advanceTo sets locals entries g (Suc i) else Inr i)
      else Inr i)"
  by pat_completeness auto
termination
  by (relation "measure (\<lambda>(sets, locals, entries, g, i). entries - i)") auto

declare advanceTo.simps [simp del]

definition matchesAt ::
  "IndexSets \<Rightarrow> PairPtr list \<Rightarrow> nat \<Rightarrow> GlobalIndex \<Rightarrow> nat \<Rightarrow> fault + bool" where
  "matchesAt sets locals entries g i =
     (if i < entries then
        (case pairAt sets locals i of Inl f \<Rightarrow> Inl f | Inr lp \<Rightarrow> Inr (global lp = g))
      else Inr False)"

definition pushSend ::
  "IndexSets \<Rightarrow> PairPtr list \<Rightarrow> nat \<Rightarrow> IndexPair \<Rightarrow> nat \<Rightarrow> RemoteIndexList \<Rightarrow>
     fault + RemoteIndexList" where
  "pushSend sets localSource localSourceEntries index sourceIndex send =
     (case matchesAt sets localSource localSourceEntries (global index) sourceIndex of
        Inl f \<Rightarrow> Inl f
      | Inr False \<Rightarrow> Inr send
      | Inr True \<Rightarrow>
          (case ptrAt localSource sourceIndex of
             Inl f \<Rightarrow> Inl f
           | Inr p \<Rightarrow> Inr (send @ [RemoteIndex_attr_local (attribute (local index)) p])))"

definition pushReceive ::
  "IndexSets \<Rightarrow> PairPtr list \<Rightarrow> nat \<Rightarrow> IndexPair \<Rightarrow> nat \<Rightarrow> nat \<Rightarrow> RemoteIndexList \<Rightarrow>
     fault + RemoteIndexList" where
  "pushReceive sets localDest localDestEntries index sourceIndex destIndex receive =
     (case matchesAt sets localDest localDestEntries (global index) destIndex of
        Inl f \<Rightarrow> Inl f
      | Inr False \<Rightarrow> Inr receive
      | Inr True \<Rightarrow>
          (case ptrAt localDest sourceIndex of
             Inl f \<Rightarrow> Inl f
           | Inr p \<Rightarrow> Inr (receive @ [RemoteIndex_attr_local (attribute (local index)) p])))"

function unpackIndices2_loop ::
  "IndexSets \<Rightarrow> PairPtr list \<Rightarrow> nat \<Rightarrow> PairPtr list \<Rightarrow> nat \<Rightarrow> Buffer \<Rightarrow> nat \<Rightarrow>
     RemoteIndexList \<Rightarrow> RemoteIndexList \<Rightarrow> nat \<Rightarrow> nat \<Rightarrow> nat \<Rightarrow> nat \<Rightarrow>
     fault + RemoteIndexList \<times> RemoteIndexList \<times> nat" where
  "unpackIndices2_loop sets localSource localSourceEntries localDest localDestEntries p_in
       remoteEntries send receive n_in sourceIndex destIndex position =
     (if n_in < remoteEntries
         \<and> (sourceIndex < localSourceEntries \<or> destIndex < localDestEntries) then
        (case MPI_Unpack_pair p_in position of
           Inl f \<Rightarrow> Inl f
         | Inr unpacked \<Rightarrow>
             (case advanceTo sets localSource localSourceEntries (global (fst unpacked))
                     sourceIndex of
                Inl f \<Rightarrow> Inl f
              | Inr sourceIndex1 \<Rightarrow>
                  (case advanceTo sets localDest localDestEntries (global (fst unpacked))
                          destIndex of
                     Inl f \<Rightarrow> Inl f
                   | Inr destIndex1 \<Rightarrow>
                       (case pushSend sets localSource localSourceEntries (fst unpacked)
                               sourceIndex1 send of
                          Inl f \<Rightarrow> Inl f
                        | Inr send1 \<Rightarrow>
                            (case pushReceive sets localDest localDestEntries (fst unpacked)
                                    sourceIndex1 destIndex1 receive of
                               Inl f \<Rightarrow> Inl f
                             | Inr receive1 \<Rightarrow>
                                 unpackIndices2_loop sets localSource localSourceEntries
                                   localDest localDestEntries p_in remoteEntries send1
                                   receive1 (Suc n_in) sourceIndex1 destIndex1
                                   (snd unpacked))))))
      else Inr (send, receive, position))"
  by pat_completeness auto
termination
  by (relation "measure (\<lambda>(sets, localSource, localSourceEntries, localDest,
                            localDestEntries, p_in, remoteEntries, send, receive, n_in,
                            sourceIndex, destIndex, position). remoteEntries - n_in)") auto

declare unpackIndices2_loop.simps [simp del]

definition unpackIndices2 ::
  "IndexSets \<Rightarrow> RemoteIndexList \<Rightarrow> RemoteIndexList \<Rightarrow> nat \<Rightarrow> PairPtr list \<Rightarrow> nat \<Rightarrow>
     PairPtr list \<Rightarrow> nat \<Rightarrow> Buffer \<Rightarrow> nat \<Rightarrow>
     fault + RemoteIndexList \<times> RemoteIndexList \<times> nat" where
  "unpackIndices2 sets send receive remoteEntries localSource localSourceEntries localDest
       localDestEntries p_in position =
     unpackIndices2_loop sets localSource localSourceEntries localDest localDestEntries p_in
       remoteEntries send receive 0 0 0 position"

section \<open>The discovery protocol\<close>

text \<open>
  The network as one process sees it: \<open>inbox\<close> holds the messages that \<open>MPI_Recv\<close> will
  deliver, in order; \<open>traffic\<close> is the sequence of the MPI calls that communicate, made so
  far. A receive that finds no message waits for ever. The result of \<open>MPI_Allreduce\<close>
  only sizes the two buffers, which the model does not bound.
\<close>

datatype Event =
    Allreduce nat
  | Sendrecv nat Buffer
  | Ssend nat Buffer
  | Recv nat
  | Barrier

record Network =
  inbox :: "Buffer list"
  traffic :: "Event list"

text \<open>
  The local variables of \<open>buildRemote\<close>: those fixed before the ring starts, and those
  the ring changes (with the registry map and the heap).
\<close>

record Locals =
  rank :: nat
  procs :: nat
  sendTwo :: bool
  sourcePublish :: nat
  destPublish :: nat

record Ring =
  ringMap :: RemoteIndexMap
  ringHeap :: Heap
  ringNet :: Network
  buffer0 :: Buffer
  buffer1 :: Buffer
  position :: nat
  sourcePairs :: "PairPtr list"
  destPairs :: "PairPtr list"

definition getBuffer :: "nat \<Rightarrow> Ring \<Rightarrow> Buffer" where
  "getBuffer i st = (if i = 0 then buffer0 st else buffer1 st)"

definition setBuffer :: "nat \<Rightarrow> Buffer \<Rightarrow> Ring \<Rightarrow> Ring" where
  "setBuffer i b st = (if i = 0 then st\<lparr>buffer0 := b\<rparr> else st\<lparr>buffer1 := b\<rparr>)"

text \<open>
  The block \<open>if(proc==0 && (procs>0 || sendTwo))\<close>: the header and the published
  records are packed into buffer \<open>out\<close>, and the arrays of addresses are filled. Without
  a second index set \<open>destPairs\<close> is the array \<open>sourcePairs\<close> itself.
\<close>

definition packFirst ::
  "Build \<Rightarrow> bool \<Rightarrow> IndexSets \<Rightarrow> RemoteIndices \<Rightarrow> Locals \<Rightarrow> nat \<Rightarrow> Ring \<Rightarrow> fault + Ring" where
  "packFirst cfg ignorePublic sets r loc out st =
     (let hdr1 = MPI_Pack (CharItem (if sendTwo loc then 1 else 0)) (getBuffer out st)
                   (position st);
          hdr2 = MPI_Pack (IntItem (sourcePublish loc)) (fst hdr1) (snd hdr1);
          hdr3 = MPI_Pack (IntItem (destPublish loc)) (fst hdr2) (snd hdr2)
      in case packEntries cfg ignorePublic sets (source' r) (fst hdr3) (snd hdr3)
                (sourcePublish loc) of
           Inl f \<Rightarrow> Inl f
         | Inr (sp, p_out1, position1) \<Rightarrow>
             (if sendTwo loc then
                (case packEntries cfg ignorePublic sets (target' r) p_out1 position1
                        (destPublish loc) of
                   Inl f \<Rightarrow> Inl f
                 | Inr (dp, p_out2, position2) \<Rightarrow>
                     Inr ((setBuffer out p_out2 st)
                            \<lparr>position := position2, sourcePairs := sp, destPairs := dp\<rparr>))
              else
                Inr ((setBuffer out p_out1 st)
                       \<lparr>position := position1, sourcePairs := sp, destPairs := sp\<rparr>)))"

text \<open>
  The three ways of communicating in a hop. The bytes sent are the first \<open>position\<close>
  items of the output buffer.
\<close>

definition MPI_Sendrecv :: "Locals \<Rightarrow> nat \<Rightarrow> nat \<Rightarrow> Ring \<Rightarrow> Ring" where
  "MPI_Sendrecv loc out inb st =
     (let msg = take (position st) (getBuffer out st)
      in (setBuffer inb msg st)
           \<lparr>ringNet := (ringNet st)\<lparr>traffic := traffic (ringNet st) @ [Sendrecv (rank loc) msg]\<rparr>\<rparr>)"

definition MPI_Ssend :: "Locals \<Rightarrow> nat \<Rightarrow> Ring \<Rightarrow> Ring" where
  "MPI_Ssend loc out st =
     st\<lparr>ringNet := (ringNet st)
          \<lparr>traffic := traffic (ringNet st)
             @ [Ssend ((rank loc + 1) mod procs loc) (take (position st) (getBuffer out st))]\<rparr>\<rparr>"

definition MPI_Recv :: "Locals \<Rightarrow> nat \<Rightarrow> Ring \<Rightarrow> fault + Ring" where
  "MPI_Recv loc inb st =
     (case inbox (ringNet st) of
        [] \<Rightarrow> Inl Deadlock
      | msg # rest \<Rightarrow>
          Inr ((setBuffer inb msg st)
                 \<lparr>ringNet := (ringNet st)
                    \<lparr>inbox := rest,
                     traffic := traffic (ringNet st)
                       @ [Recv ((rank loc + procs loc - 1) mod procs loc)]\<rparr>\<rparr>))"

text \<open>
  The rest of a hop, from \<open>position=0\<close> on: the header is unpacked, the lists are built
  by one of the three ways of unpacking, and the entry is put into the map unless both
  lists are empty. A list is stored on the heap with the content it has after the
  unpacking.
\<close>

definition unpackHeader :: "Buffer \<Rightarrow> fault + nat \<times> nat \<times> nat \<times> nat" where
  "unpackHeader p_in =
     (case MPI_Unpack_char p_in 0 of
        Inl f \<Rightarrow> Inl f
      | Inr (twoIndexSets, position1) \<Rightarrow>
          (case MPI_Unpack_int p_in position1 of
             Inl f \<Rightarrow> Inl f
           | Inr (noRemoteSource, position2) \<Rightarrow>
               (case MPI_Unpack_int p_in position2 of
                  Inl f \<Rightarrow> Inl f
                | Inr (noRemoteDest, position3) \<Rightarrow>
                    Inr (twoIndexSets, noRemoteSource, noRemoteDest, position3))))"

definition unpackLists ::
  "IndexSets \<Rightarrow> Locals \<Rightarrow> Ring \<Rightarrow> Buffer \<Rightarrow> nat \<Rightarrow> nat \<Rightarrow> nat \<Rightarrow> nat \<Rightarrow> nat \<Rightarrow> Heap \<Rightarrow>
     fault + nat \<times> RemoteIndexList \<times> RemoteIndexList \<times> nat \<times> Heap" where
  "unpackLists sets loc st p_in twoIndexSets noRemoteSource noRemoteDest position0 receive h =
     (if twoIndexSets = 0 then
        (if sendTwo loc then
           (case unpackIndices2 sets [] [] noRemoteSource (sourcePairs st) (sourcePublish loc)
                   (destPairs st) (destPublish loc) p_in position0 of
              Inl f \<Rightarrow> Inl f
            | Inr (sendList, receiveList, position1) \<Rightarrow>
                Inr (fst (new_list h), sendList, receiveList, position1, snd (new_list h)))
         else
           (case unpackIndices sets [] noRemoteSource (sourcePairs st) (sourcePublish loc)
                   p_in position0 of
              Inl f \<Rightarrow> Inl f
            | Inr (receiveList, position1) \<Rightarrow>
                Inr (receive, receiveList, receiveList, position1, h)))
      else
        (case (if sendTwo loc then
                 unpackIndices sets [] noRemoteSource (destPairs st) (destPublish loc)
                   p_in position0
               else
                 unpackIndices sets [] noRemoteSource (sourcePairs st) (sourcePublish loc)
                   p_in position0) of
           Inl f \<Rightarrow> Inl f
         | Inr (receiveList, position1) \<Rightarrow>
             (case unpackIndices sets [] noRemoteDest (sourcePairs st) (sourcePublish loc)
                     p_in position1 of
                Inl f \<Rightarrow> Inl f
              | Inr (sendList, position2) \<Rightarrow>
                  Inr (fst (new_list h), sendList, receiveList, position2,
                       snd (new_list h)))))"

definition deleteEmpty :: "nat \<Rightarrow> nat \<Rightarrow> Heap \<Rightarrow> fault + Heap" where
  "deleteEmpty send receive h =
     (if send = receive then delete_list send h
      else
        (case delete_list send h of
           Inl f \<Rightarrow> Inl f
         | Inr h1 \<Rightarrow> delete_list receive h1))"

definition processMessage :: "IndexSets \<Rightarrow> Locals \<Rightarrow> nat \<Rightarrow> Ring \<Rightarrow> fault + Ring" where
  "processMessage sets loc proc st =
     (let p_in = getBuffer (proc mod 2) st in
      case unpackHeader p_in of
        Inl f \<Rightarrow> Inl f
      | Inr (twoIndexSets, noRemoteSource, noRemoteDest, position0) \<Rightarrow>
          (let remoteProc = (rank loc + procs loc - proc) mod procs loc;
               receive = fst (new_list (ringHeap st));
               h1 = snd (new_list (ringHeap st))
           in case unpackLists sets loc st p_in twoIndexSets noRemoteSource noRemoteDest
                     position0 receive h1 of
                Inl f \<Rightarrow> Inl f
              | Inr (send, sendList, receiveList, position1, h2) \<Rightarrow>
                  (let h3 = h2\<lparr>cells := (cells h2)(receive \<mapsto> receiveList, send \<mapsto> sendList)\<rparr>
                   in if receiveList = [] \<and> sendList = [] then
                        (case deleteEmpty send receive h3 of
                           Inl f \<Rightarrow> Inl f
                         | Inr h4 \<Rightarrow> Inr (st\<lparr>ringHeap := h4, position := position1\<rparr>))
                      else
                        Inr (st\<lparr>ringMap := map_insert remoteProc (send, receive) (ringMap st),
                                ringHeap := h3, position := position1\<rparr>))))"

text \<open>
  One pass of the loop \<open>for(int proc=0; proc<procs; proc++)\<close>. \<open>p_out\<close> is
  \<open>buffer[1-(proc%2)]\<close> and \<open>p_in\<close> is \<open>buffer[proc%2]\<close>; in the first pass without a
  second index set \<open>p_out\<close> is \<open>buffer[0]\<close> and the pass ends at \<open>continue\<close>.
\<close>

definition hop ::
  "Build \<Rightarrow> bool \<Rightarrow> IndexSets \<Rightarrow> RemoteIndices \<Rightarrow> Locals \<Rightarrow> nat \<Rightarrow> Ring \<Rightarrow> fault + Ring" where
  "hop cfg ignorePublic sets r loc proc st =
     (let out = (if proc = 0 \<and> (0 < procs loc \<or> sendTwo loc) \<and> \<not> sendTwo loc then 0
                 else 1 - proc mod 2);
          inb = proc mod 2
      in case (if proc = 0 \<and> (0 < procs loc \<or> sendTwo loc)
               then packFirst cfg ignorePublic sets r loc out st else Inr st) of
           Inl f \<Rightarrow> Inl f
         | Inr st1 \<Rightarrow>
             (if proc = 0 then
                (if sendTwo loc then processMessage sets loc proc (MPI_Sendrecv loc out inb st1)
                 else Inr st1)
              else if rank loc mod 2 = 0 then
                (case MPI_Recv loc inb (MPI_Ssend loc out st1) of
                   Inl f \<Rightarrow> Inl f
                 | Inr st2 \<Rightarrow> processMessage sets loc proc st2)
              else
                (case MPI_Recv loc inb st1 of
                   Inl f \<Rightarrow> Inl f
                 | Inr st2 \<Rightarrow> processMessage sets loc proc (MPI_Ssend loc out st2))))"

function ring ::
  "Build \<Rightarrow> bool \<Rightarrow> IndexSets \<Rightarrow> RemoteIndices \<Rightarrow> Locals \<Rightarrow> nat \<Rightarrow> Ring \<Rightarrow> fault + Ring" where
  "ring cfg ignorePublic sets r loc proc st =
     (if proc < procs loc then
        (case hop cfg ignorePublic sets r loc proc st of
           Inl f \<Rightarrow> Inl f
         | Inr st1 \<Rightarrow> ring cfg ignorePublic sets r loc (Suc proc) st1)
      else Inr st)"
  by pat_completeness auto
termination
  by (relation "measure (\<lambda>(cfg, ignorePublic, sets, r, loc, proc, st). procs loc - proc)") auto

declare ring.simps [simp del]

definition buildLocals :: "bool \<Rightarrow> IndexSets \<Rightarrow> RemoteIndices \<Rightarrow> Locals" where
  "buildLocals ignorePublic sets r =
     \<lparr>rank = commRank (comm' r), procs = commSize (comm' r),
      sendTwo = (source' r \<noteq> target' r),
      sourcePublish =
        (if ignorePublic then length (pairs (sets (source' r)))
         else noPublic (sets (source' r))),
      destPublish =
        (if source' r \<noteq> target' r then
           (if ignorePublic then length (pairs (sets (target' r)))
            else noPublic (sets (target' r)))
         else 0)\<rparr>"

definition buildRemote ::
  "Build \<Rightarrow> bool \<Rightarrow> IndexSets \<Rightarrow> RemoteIndices \<times> Heap \<times> Network \<Rightarrow>
     fault + RemoteIndices \<times> Heap \<times> Network" where
  "buildRemote cfg ignorePublic sets w =
     (let r = fst w; h = fst (snd w); net = snd (snd w);
          loc = buildLocals ignorePublic sets r;
          publish = sourcePublish loc + destPublish loc;
          st0 = \<lparr>ringMap = remoteIndices' r, ringHeap = h,
                 ringNet = net\<lparr>traffic := traffic net @ [Allreduce publish]\<rparr>,
                 buffer0 = [], buffer1 = [], position = 0, sourcePairs = [], destPairs = []\<rparr>
      in case ring cfg ignorePublic sets r loc 0 st0 of
           Inl f \<Rightarrow> Inl f
         | Inr st \<Rightarrow>
             Inr (r\<lparr>remoteIndices' := ringMap st\<rparr>, ringHeap st,
                  (ringNet st)\<lparr>traffic := traffic (ringNet st) @ [Barrier]\<rparr>))"

definition rebuild ::
  "Build \<Rightarrow> bool \<Rightarrow> IndexSets \<Rightarrow> RemoteIndices \<times> Heap \<times> Network \<Rightarrow>
     fault + RemoteIndices \<times> Heap \<times> Network" where
  "rebuild cfg ignorePublic sets w =
     (let r = fst w; h = fst (snd w); net = snd (snd w) in
      if firstBuild r \<or> ignorePublic \<noteq> publicIgnored r \<or> \<not> isSynced sets r then
        (case free (r, h) of
           Inl f \<Rightarrow> Inl f
         | Inr (r1, h1) \<Rightarrow>
             (case buildRemote cfg ignorePublic sets (r1, h1, net) of
                Inl f \<Rightarrow> Inl f
              | Inr (r2, h2, net2) \<Rightarrow>
                  Inr (r2\<lparr>sourceSeqNo' := seqNo (sets (source' r2)),
                         destSeqNo' := seqNo (sets (target' r2)),
                         firstBuild := False, publicIgnored := ignorePublic\<rparr>,
                       h2, net2)))
      else Inr w)"

text \<open>
  The MPI calls that communicate, as \<open>buildRemote\<close> makes them one after the other, with
  the bytes sent left out: pass 0 of the loop exchanges with the process itself when
  there are two index sets and communicates nothing otherwise; every later pass sends
  to the next rank of the ring and receives from the previous one, the even ranks
  sending first and the odd ranks receiving first.
\<close>

fun shape :: "Event \<Rightarrow> Event" where
  "shape (Sendrecv p b) = Sendrecv p []"
| "shape (Ssend p b) = Ssend p []"
| "shape (Allreduce n) = Allreduce n"
| "shape (Recv p) = Recv p"
| "shape Barrier = Barrier"

definition hopEvents :: "Locals \<Rightarrow> nat \<Rightarrow> Event list" where
  "hopEvents loc proc =
     (if proc = 0 then (if sendTwo loc then [Sendrecv (rank loc) []] else [])
      else if rank loc mod 2 = 0 then
        [Ssend ((rank loc + 1) mod procs loc) [],
         Recv ((rank loc + procs loc - 1) mod procs loc)]
      else
        [Recv ((rank loc + procs loc - 1) mod procs loc),
         Ssend ((rank loc + 1) mod procs loc) []])"

definition protocolEvents :: "Locals \<Rightarrow> Event list" where
  "protocolEvents loc =
     Allreduce (sourcePublish loc + destPublish loc)
       # concat (map (hopEvents loc) [0..<procs loc]) @ [Barrier]"

section \<open>Vocabulary for the properties of a build\<close>

text \<open>
  A record is published when the build ignores the public flag or the flag is set.
  \<open>publishedSlots\<close> lists the places of the published records of a part of an index set
  that starts at place \<open>slot\<close>. \<open>ascending\<close> says that an index set is strictly sorted by
  global index, as the spec requires of every index set.
\<close>

definition published :: "bool \<Rightarrow> IndexPair \<Rightarrow> bool" where
  "published ignorePublic x = (ignorePublic \<or> isPublic (local x))"

fun publishedSlots :: "bool \<Rightarrow> IndexPair list \<Rightarrow> nat \<Rightarrow> nat list" where
  "publishedSlots ignorePublic [] slot = []"
| "publishedSlots ignorePublic (x # xs) slot =
     (if published ignorePublic x then slot # publishedSlots ignorePublic xs (Suc slot)
      else publishedSlots ignorePublic xs (Suc slot))"

definition ascending :: "IndexPair list \<Rightarrow> bool" where
  "ascending xs = sorted_wrt (<) (map global xs)"


text \<open>
  \<open>wellFormed\<close> says that a received message has the layout that \<open>buildRemote\<close> packs:
  the flag, the two counts, and then at least as many index pairs as the receiver will
  unpack, which is the first count for a peer with one index set and the sum of the two
  for a peer with two. A process with two index sets is moreover not sent the message of
  a peer with one, whose unpacking into two lists reads the array of the target set at
  the position in the array of the source set.
\<close>

fun isPair :: "Item \<Rightarrow> bool" where
  "isPair (PairItem p) = True"
| "isPair (CharItem c) = False"
| "isPair (IntItem n) = False"

definition announced :: "nat \<Rightarrow> nat \<Rightarrow> nat \<Rightarrow> nat" where
  "announced t ns nd = (if t = 0 then ns else ns + nd)"

fun wellFormed :: "bool \<Rightarrow> Buffer \<Rightarrow> bool" where
  "wellFormed two (CharItem t # IntItem ns # IntItem nd # body) =
     (\<not> (two \<and> t = 0) \<and> announced t ns nd \<le> length body
      \<and> list_all isPair (take (announced t ns nd) body))"
| "wellFormed two msg = False"

section \<open>Concrete configurations\<close>

text \<open>
  Two index sets, at the addresses 1 and 2: the first holds the global indices 1, 3 and
  5 (3 is not public), the second 5 and 7. Every other address holds an empty set.
\<close>

definition examplePair :: "GlobalIndex \<Rightarrow> nat \<Rightarrow> Attribute \<Rightarrow> bool \<Rightarrow> IndexPair" where
  "examplePair g l a p = \<lparr>global = g, local = \<lparr>localId = l, attribute = a, isPublic = p\<rparr>\<rparr>"

definition exampleSets :: IndexSets where
  "exampleSets =
     (\<lambda>a. \<lparr>pairs = [], seqNo = 0\<rparr>)
       (1 := \<lparr>pairs = [examplePair 1 0 0 True, examplePair 3 1 0 False, examplePair 5 2 1 True],
              seqNo = 4\<rparr>,
        2 := \<lparr>pairs = [examplePair 5 0 0 True, examplePair 7 1 2 True], seqNo = 9\<rparr>)"

definition emptyHeap :: Heap where
  "emptyHeap = \<lparr>cells = Map.empty, nextFree = 0, freed = []\<rparr>"

definition exampleComm :: MPI_Comm where
  "exampleComm = \<lparr>commRank = 0, commSize = 1\<rparr>"

definition exampleBuild :: Build where
  "exampleBuild = \<lparr>withChecking = False, ndebug = False\<rparr>"

definition checkedBuild :: Build where
  "checkedBuild = \<lparr>withChecking = True, ndebug = False\<rparr>"

text \<open>
  A heap with one list at address 0 that holds the records for the global indices 1
  and 5 of the first index set, and a fresh modifier over it in either mode.
\<close>

definition exampleList :: RemoteIndexList where
  "exampleList = [RemoteIndex_attr_local 2 (Ptr 1 0), RemoteIndex_attr_local 2 (Ptr 1 2)]"

definition exampleHeap :: Heap where
  "exampleHeap = \<lparr>cells = [0 \<mapsto> exampleList], nextFree = 1, freed = []\<rparr>"

definition exampleModifier :: "bool \<Rightarrow> Modifier" where
  "exampleModifier mode =
     \<lparr>rList' = 0, indexSet' = 1, glist' = (if mode then [1, 5] else []), iter' = 0,
      giter' = 0, first' = True, last' = 0\<rparr>"

text \<open>
  A collective iterator over the lists of two peers: peer 1 holds the records for the
  global indices 1, 3 and 7, peer 2 those for 3, 5 and 7.
\<close>

definition exampleIterator :: CollectiveIterator where
  "exampleIterator =
     \<lparr>map' =
        [(1, [RemoteIndex_attr_local 0 (Ptr 1 0), RemoteIndex_attr_local 0 (Ptr 1 1),
              RemoteIndex_attr_local 0 (Ptr 2 1)]),
         (2, [RemoteIndex_attr_local 1 (Ptr 1 1), RemoteIndex_attr_local 1 (Ptr 1 2),
              RemoteIndex_attr_local 1 (Ptr 2 1)])],
      index' = 0\<rparr>"

text \<open>A network with nothing to deliver and no traffic so far.\<close>

definition quietNetwork :: Network where
  "quietNetwork = \<lparr>inbox = [], traffic = []\<rparr>"

text \<open>
  Rank 0 of two processes, and the message that a peer whose one index set holds the
  global indices 5 and 7, both with attribute 7, sends round the ring.
\<close>

definition twoProcesses :: MPI_Comm where
  "twoProcesses = \<lparr>commRank = 0, commSize = 2\<rparr>"

definition peerMessage :: Buffer where
  "peerMessage =
     [CharItem 0, IntItem 2, IntItem 0, PairItem (examplePair 5 0 7 True),
      PairItem (examplePair 7 1 7 True)]"

section \<open>Evaluating runs\<close>

text \<open>The equations that unfold a run of the model on concrete data.\<close>

lemmas run_simps =
  deref_def RemoteIndex_attr_local_def RemoteIndex_attr_def RemoteIndex_default_def
  localIndexPair_def globalOf_def new_list_def delete_list_def RemoteIndices_ctor_def
  free_def neighbours_def isSynced_def MPI_Pack_def MPI_Unpack_def MPI_Unpack_char_def
  MPI_Unpack_int_def MPI_Unpack_pair_def noPublic_def packEntries_def ptrAt_def pairAt_def
  unpackIndices_loop.simps unpackIndices_rest.simps unpackIndices_def advanceTo.simps
  matchesAt_def pushSend_def pushReceive_def unpackIndices2_loop.simps unpackIndices2_def
  getBuffer_def setBuffer_def packFirst_def MPI_Sendrecv_def MPI_Ssend_def MPI_Recv_def
  unpackHeader_def unpackLists_def deleteEmpty_def processMessage_def hop_def ring.simps
  buildLocals_def buildRemote_def rebuild_def Let_def
  examplePair_def exampleSets_def emptyHeap_def exampleComm_def exampleBuild_def
  quietNetwork_def twoProcesses_def peerMessage_def numeral_2_eq_2

section \<open>Remote index records: the back-reference\<close>

text \<open>
  C9. A record made by the parameterless constructor or by the attribute-only
  constructor holds the null pointer, and \<open>localIndexPair()\<close> on it dereferences null.
  \<open>localIndexPair()\<close> returns a record exactly when the back-reference is the address of
  a slot of an index set, as it is after the constructor that takes the local pair.
\<close>

theorem RemoteIndex_null_back_reference:
  "localIndex' RemoteIndex_default = Null
   \<and> localIndex' (RemoteIndex_attr a) = Null
   \<and> localIndexPair sets RemoteIndex_default = Inl NullPointer
   \<and> localIndexPair sets (RemoteIndex_attr a) = Inl NullPointer
   \<and> ((\<exists>p. localIndexPair sets r = Inr p)
        = (\<exists>s i. localIndex' r = Ptr s i \<and> i < length (pairs (sets s))))
   \<and> (i < length (pairs (sets s)) \<longrightarrow>
        localIndexPair sets (RemoteIndex_attr_local a (Ptr s i)) = Inr (pairs (sets s) ! i))"
  by (auto simp: RemoteIndex_default_def RemoteIndex_attr_def RemoteIndex_attr_local_def
      localIndexPair_def deref_def split: PairPtr.splits)

theorem RemoteIndex_null_back_reference_witness:
  "(1::nat) < length (pairs (exampleSets 1))
   \<and> localIndexPair exampleSets (RemoteIndex_attr_local 2 (Ptr 1 1)) =
       Inr (examplePair 3 1 0 False)
   \<and> localIndexPair exampleSets (RemoteIndex_attr 2) = Inl NullPointer"
  using RemoteIndex_null_back_reference
          [where a = 2 and sets = exampleSets and i = 1 and s = 1]
  by (simp add: exampleSets_def)

section \<open>Teardown\<close>

lemma free_loop_blocks:
  "distinct (blocks m) \<Longrightarrow> set (blocks m) \<subseteq> dom (cells h) \<Longrightarrow>
   free_loop m h =
     Inr (h\<lparr>cells := cells h |` (- set (blocks m)), freed := freed h @ blocks m\<rparr>)"
proof (induction m arbitrary: h)
  case Nil
  then show ?case by (simp add: restrict_map_def)
next
  case (Cons e m)
  obtain p a b where e: "e = (p, (a, b))" by (cases e) auto
  show ?case
  proof (cases "a = b")
    case True
    from Cons.prems e True obtain l where l: "cells h a = Some l" by auto
    let ?h1 = "h\<lparr>cells := (cells h)(a := None), freed := freed h @ [a]\<rparr>"
    have d: "delete_list a h = Inr ?h1" by (simp add: delete_list_def l)
    have "distinct (blocks m)" "set (blocks m) \<subseteq> dom (cells ?h1)"
      using Cons.prems e True by auto
    from Cons.IH[OF this] have
      "free_loop m ?h1 =
         Inr (?h1\<lparr>cells := cells ?h1 |` (- set (blocks m)), freed := freed ?h1 @ blocks m\<rparr>)" .
    moreover have
      "(cells h)(a := None) |` (- set (blocks m)) = cells h |` (- set (blocks (e # m)))"
      by (rule ext) (simp add: e True restrict_map_def)
    ultimately show ?thesis using d by (simp add: e True)
  next
    case False
    from Cons.prems e False obtain l where l: "cells h a = Some l" by auto
    from Cons.prems e False obtain l2 where l2: "cells h b = Some l2" by auto
    let ?h1 = "h\<lparr>cells := (cells h)(a := None), freed := freed h @ [a]\<rparr>"
    let ?h2 = "h\<lparr>cells := (cells h)(a := None, b := None), freed := freed h @ [a, b]\<rparr>"
    have d: "delete_list a h = Inr ?h1" by (simp add: delete_list_def l)
    have d2: "delete_list b ?h1 = Inr ?h2" using False by (simp add: delete_list_def l2)
    have "distinct (blocks m)" "set (blocks m) \<subseteq> dom (cells ?h2)"
      using Cons.prems e False by auto
    from Cons.IH[OF this] have
      "free_loop m ?h2 =
         Inr (?h2\<lparr>cells := cells ?h2 |` (- set (blocks m)), freed := freed ?h2 @ blocks m\<rparr>)" .
    moreover have
      "(cells h)(a := None, b := None) |` (- set (blocks m)) =
       cells h |` (- set (blocks (e # m)))"
      by (rule ext) (simp add: e False restrict_map_def)
    ultimately show ?thesis using d d2 False by (simp add: e)
  qed
qed

text \<open>
  C8. In a registry whose entries own live lists, no list being shared between two
  entries, \<open>free()\<close> returns, and the addresses it has passed to \<open>delete\<close> are exactly the
  blocks of the map, each once: one address for an entry whose send list and receive
  list are the same object, both addresses otherwise. Afterwards none of these blocks is
  live, the map is empty, \<open>neighbours()\<close> is 0 and \<open>firstBuild\<close> is set. \<open>setIndexSets\<close> and
  the destructor release the same blocks.
\<close>

theorem free_deletes_each_block_once:
  assumes "distinct (blocks (remoteIndices' r))"
    and "set (blocks (remoteIndices' r)) \<subseteq> dom (cells h)"
  shows "free (r, h) =
           Inr (r\<lparr>remoteIndices' := [], firstBuild := True\<rparr>,
                h\<lparr>cells := cells h |` (- set (blocks (remoteIndices' r))),
                  freed := freed h @ blocks (remoteIndices' r)\<rparr>)
       \<and> neighbours (r\<lparr>remoteIndices' := [], firstBuild := True\<rparr>) = 0
       \<and> RemoteIndices_dtor (r, h) = free (r, h)
       \<and> setIndexSets s t c (r, h) =
           Inr (r\<lparr>remoteIndices' := [], source' := s, target' := t, comm' := c,
                  firstBuild := True\<rparr>,
                h\<lparr>cells := cells h |` (- set (blocks (remoteIndices' r))),
                  freed := freed h @ blocks (remoteIndices' r)\<rparr>)"
  using free_loop_blocks[OF assms]
  by (simp add: free_def neighbours_def RemoteIndices_dtor_def setIndexSets_def)

theorem free_deletes_each_block_once_witness:
  "distinct (blocks [(1, (10, 10)), (2, (11, 12))])
   \<and> free (RemoteIndices_ctor 1 2 exampleComm\<lparr>remoteIndices' := [(1, (10, 10)), (2, (11, 12))]\<rparr>,
            \<lparr>cells = [10 \<mapsto> [], 11 \<mapsto> [], 12 \<mapsto> []], nextFree = 13, freed = []\<rparr>) =
       Inr (RemoteIndices_ctor 1 2 exampleComm,
            \<lparr>cells = [10 \<mapsto> [], 11 \<mapsto> [], 12 \<mapsto> []] |` (- {10, 11, 12}), nextFree = 13,
             freed = [10, 11, 12]\<rparr>)"
  using free_deletes_each_block_once
    [of "RemoteIndices_ctor 1 2 exampleComm\<lparr>remoteIndices' := [(1, (10, 10)), (2, (11, 12))]\<rparr>"
        "\<lparr>cells = [10 \<mapsto> [], 11 \<mapsto> [], 12 \<mapsto> []], nextFree = 13, freed = []\<rparr>"]
  by (simp add: RemoteIndices_ctor_def)

section \<open>Taking a modifier\<close>

text \<open>
  C2. With distinct source and target index sets and no entry for the peer,
  \<open>getModifier\<close> inserts the entry and then dereferences \<open>found\<close>, which is still
  \<open>end()\<close>: the call faults instead of returning a modifier over the new list.
\<close>

theorem getModifier_distinct_sets_new_peer:
  "getModifier False True 1 exampleSets (RemoteIndices_ctor 1 2 exampleComm, emptyHeap) =
     Inl EndIterator
   \<and> getModifier False False 1 exampleSets (RemoteIndices_ctor 1 2 exampleComm, emptyHeap) =
     Inl EndIterator"
  by (simp add: getModifier_def Let_def new_list_def RemoteIndices_ctor_def emptyHeap_def)

text \<open>
  C7. Whenever \<open>getModifier\<close> returns, whatever its template parameters and its peer,
  the registry it leaves is synced: both cached sequence numbers are those of the index
  sets.
\<close>

theorem getModifier_marks_synced:
  "getModifier mode send p sets w = Inr (m, r', h') \<Longrightarrow> isSynced sets r'"
  by (auto simp: getModifier_def isSynced_def Let_def new_list_def
      split: if_splits option.splits sum.splits prod.splits)

theorem getModifier_marks_synced_witness:
  "getModifier False True 1 exampleSets (RemoteIndices_ctor 1 1 exampleComm, emptyHeap) =
     Inr (\<lparr>rList' = 0, indexSet' = 1, glist' = [], iter' = 0, giter' = 0, first' = True,
           last' = 0\<rparr>,
          RemoteIndices_ctor 1 1 exampleComm
            \<lparr>sourceSeqNo' := 4, destSeqNo' := 4, firstBuild := False,
             remoteIndices' := [(1, (0, 0))]\<rparr>,
          \<lparr>cells = [0 \<mapsto> []], nextFree = 1, freed = []\<rparr>)
   \<and> \<not> isSynced exampleSets (RemoteIndices_ctor 1 1 exampleComm)
   \<and> isSynced exampleSets
        (RemoteIndices_ctor 1 1 exampleComm
           \<lparr>sourceSeqNo' := 4, destSeqNo' := 4, firstBuild := False,
            remoteIndices' := [(1, (0, 0))]\<rparr>)"
proof -
  have run:
    "getModifier False True 1 exampleSets (RemoteIndices_ctor 1 1 exampleComm, emptyHeap) =
       Inr (\<lparr>rList' = 0, indexSet' = 1, glist' = [], iter' = 0, giter' = 0, first' = True,
             last' = 0\<rparr>,
            RemoteIndices_ctor 1 1 exampleComm
              \<lparr>sourceSeqNo' := 4, destSeqNo' := 4, firstBuild := False,
               remoteIndices' := [(1, (0, 0))]\<rparr>,
            \<lparr>cells = [0 \<mapsto> []], nextFree = 1, freed = []\<rparr>)"
    by (simp add: getModifier_def Let_def new_list_def RemoteIndices_ctor_def emptyHeap_def
        RemoteIndexListModifier_def exampleSets_def)
  have "\<not> isSynced exampleSets (RemoteIndices_ctor 1 1 exampleComm)"
    by (simp add: isSynced_def RemoteIndices_ctor_def exampleSets_def)
  with run getModifier_marks_synced[OF run] show ?thesis by simp
qed

section \<open>Order of the modifier's operations\<close>

lemma seekRemote_stop:
  "seekRemote sets l bound j = Inr i \<Longrightarrow> i < length l \<Longrightarrow>
   \<exists>x b. globalOf sets (l ! i) = Inr x \<and> bound = Inr b \<and> \<not> x < b"
proof (induction sets l bound j rule: seekRemote.induct)
  case (1 sets l bound j)
  from "1.prems"(1) have eq:
    "(if j < length l then
        (case globalOf sets (l ! j) of
           Inl f \<Rightarrow> Inl f
         | Inr g \<Rightarrow>
             (case bound of
                Inl f \<Rightarrow> Inl f
              | Inr b \<Rightarrow> if g < b then seekRemote sets l bound (Suc j) else Inr j))
      else Inr j) = Inr i"
    by (subst (asm) seekRemote.simps)
  show ?case
  proof (cases "j < length l")
    case True
    then show ?thesis using eq "1.IH" "1.prems"(2)
      by (auto split: sum.splits if_splits)
  next
    case False
    then show ?thesis using eq "1.prems"(2) by auto
  qed
qed

lemma seekGlobal_stop:
  "seekGlobal gl l g gj j = Inr (gi, i) \<Longrightarrow> i < length l \<Longrightarrow>
   gi < length gl \<and> \<not> gl ! gi < g"
proof (induction gl l g gj j rule: seekGlobal.induct)
  case (1 gl l g gj j)
  from "1.prems"(1) have eq:
    "(if j < length l then
        (if gj < length gl then
           (if gl ! gj < g then seekGlobal gl l g (Suc gj) (Suc j) else Inr (gj, j))
         else Inl EndIterator)
      else Inr (gj, j)) = Inr (gi, i)"
    by (subst (asm) seekGlobal.simps)
  then show ?case using "1.IH" "1.prems"(2)
    by (auto split: if_splits)
qed

lemma seekRemote_le:
  "seekRemote sets l bound j = Inr i \<Longrightarrow> j \<le> length l \<Longrightarrow> i \<le> length l"
proof (induction sets l bound j rule: seekRemote.induct)
  case (1 sets l bound j)
  from "1.prems"(1) have eq:
    "(if j < length l then
        (case globalOf sets (l ! j) of
           Inl f \<Rightarrow> Inl f
         | Inr g \<Rightarrow>
             (case bound of
                Inl f \<Rightarrow> Inl f
              | Inr b \<Rightarrow> if g < b then seekRemote sets l bound (Suc j) else Inr j))
      else Inr j) = Inr i"
    by (subst (asm) seekRemote.simps)
  show ?case
  proof (cases "j < length l")
    case True
    then show ?thesis using eq "1.IH"
      by (auto split: sum.splits if_splits)
  next
    case False
    then show ?thesis using eq "1.prems"(2) by auto
  qed
qed

lemma seekGlobal_le:
  "seekGlobal gl l g gj j = Inr (gi, i) \<Longrightarrow> gj \<le> length gl \<Longrightarrow> j \<le> length l \<Longrightarrow>
   gi \<le> length gl \<and> i \<le> length l"
proof (induction gl l g gj j rule: seekGlobal.induct)
  case (1 gl l g gj j)
  from "1.prems"(1) have eq:
    "(if j < length l then
        (if gj < length gl then
           (if gl ! gj < g then seekGlobal gl l g (Suc gj) (Suc j) else Inr (gj, j))
         else Inl EndIterator)
      else Inr (gj, j)) = Inr (gi, i)"
    by (subst (asm) seekGlobal.simps)
  then show ?case using "1.IH" "1.prems"(2,3)
    by (auto split: if_splits)
qed

text \<open>
  C4, as the code has it. In a build with \<open>DUNE_ISTL_WITH_CHECKING\<close>, an insert or a
  remove whose global index is smaller than the one last touched throws
  \<open>InvalidPosition\<close> and leaves the heap (so the list) and the modifier as they were. In
  a build without the macro the test is not compiled, and no insert and no remove throws,
  whatever the state of the modifier and the global index.
\<close>

theorem out_of_order_throws_when_checking:
  "(withChecking cfg \<and> \<not> first' m \<and> g < last' m \<longrightarrow>
      remove_global cfg mode sets g (h, m) = Throw InvalidPosition (h, m)
      \<and> insert_index_global cfg sets index g (h, m) = Throw InvalidPosition (h, m)
      \<and> (globalOf sets index = Inr g \<longrightarrow>
           insert_index cfg sets index (h, m) = Throw InvalidPosition (h, m)))
   \<and> (\<not> withChecking cfg \<longrightarrow>
        remove_global cfg mode sets g (h, m) \<noteq> Throw e s
        \<and> insert_index_global cfg sets index g (h, m) \<noteq> Throw e s
        \<and> insert_index cfg sets index (h, m) \<noteq> Throw e s)"
proof (intro conjI impI)
  assume a: "withChecking cfg \<and> \<not> first' m \<and> g < last' m"
  then show "remove_global cfg mode sets g (h, m) = Throw InvalidPosition (h, m)"
    by (simp add: remove_global_def outOfOrder_def)
  from a show "insert_index_global cfg sets index g (h, m) = Throw InvalidPosition (h, m)"
    by (simp add: insert_index_global_def outOfOrder_def)
  assume "globalOf sets index = Inr g"
  with a show "insert_index cfg sets index (h, m) = Throw InvalidPosition (h, m)"
    by (simp add: insert_index_def outOfOrder_def)
next
  assume n: "\<not> withChecking cfg"
  then show "remove_global cfg mode sets g (h, m) \<noteq> Throw e s"
    by (auto simp: remove_global_def outOfOrder_def Let_def
        split: option.splits sum.splits prod.splits if_splits)
  from n show "insert_index_global cfg sets index g (h, m) \<noteq> Throw e s"
    by (auto simp: insert_index_global_def outOfOrder_def Let_def iter_insert_def
        split: option.splits sum.splits prod.splits if_splits bool.splits)
  from n show "insert_index cfg sets index (h, m) \<noteq> Throw e s"
    by (auto simp: insert_index_def outOfOrder_def Let_def iter_insert_def
        split: option.splits sum.splits prod.splits if_splits bool.splits)
qed

theorem out_of_order_throws_when_checking_witness:
  "withChecking checkedBuild
   \<and> \<not> first' (exampleModifier False\<lparr>first' := False, last' := 5\<rparr>)
   \<and> (3::int) < last' (exampleModifier False\<lparr>first' := False, last' := 5\<rparr>)
   \<and> globalOf exampleSets (RemoteIndex_attr_local 0 (Ptr 1 1)) = Inr 3
   \<and> remove_global checkedBuild False exampleSets 3
        (exampleHeap, exampleModifier False\<lparr>first' := False, last' := 5\<rparr>) =
       Throw InvalidPosition (exampleHeap, exampleModifier False\<lparr>first' := False, last' := 5\<rparr>)
   \<and> insert_index checkedBuild exampleSets (RemoteIndex_attr_local 0 (Ptr 1 1))
        (exampleHeap, exampleModifier False\<lparr>first' := False, last' := 5\<rparr>) =
       Throw InvalidPosition (exampleHeap, exampleModifier False\<lparr>first' := False, last' := 5\<rparr>)
   \<and> \<not> withChecking exampleBuild
   \<and> insert_index exampleBuild exampleSets (RemoteIndex_attr_local 0 (Ptr 1 1))
        (exampleHeap, exampleModifier False\<lparr>first' := False, last' := 5\<rparr>) \<noteq>
       Throw InvalidPosition (exampleHeap, exampleModifier False\<lparr>first' := False, last' := 5\<rparr>)"
proof -
  let ?m = "exampleModifier False\<lparr>first' := False, last' := 5\<rparr>"
  let ?index = "RemoteIndex_attr_local 0 (Ptr 1 1)"
  have a: "withChecking checkedBuild" by (simp add: checkedBuild_def)
  have b: "\<not> first' ?m" by simp
  have c: "(3::int) < last' ?m" by simp
  have d: "globalOf exampleSets ?index = Inr 3"
    by (simp add: globalOf_def localIndexPair_def deref_def exampleSets_def examplePair_def
        RemoteIndex_attr_local_def)
  have n: "\<not> withChecking exampleBuild" by (simp add: exampleBuild_def)
  from out_of_order_throws_when_checking
         [of checkedBuild ?m 3 False exampleSets exampleHeap ?index]
       a b c d
  have t: "remove_global checkedBuild False exampleSets 3 (exampleHeap, ?m) =
             Throw InvalidPosition (exampleHeap, ?m)
           \<and> insert_index checkedBuild exampleSets ?index (exampleHeap, ?m) =
             Throw InvalidPosition (exampleHeap, ?m)"
    by blast
  from out_of_order_throws_when_checking
         [of exampleBuild ?m 3 False exampleSets exampleHeap ?index InvalidPosition
             "(exampleHeap, ?m)"]
       n
  have u: "insert_index exampleBuild exampleSets ?index (exampleHeap, ?m) \<noteq>
             Throw InvalidPosition (exampleHeap, ?m)"
    by blast
  from a b c d n t u show ?thesis by blast
qed

text \<open>
  The claim as the spec states it fails in a build without \<open>DUNE_ISTL_WITH_CHECKING\<close>:
  a fresh modifier over the list of 1 and 5 removes 5, which leaves the cursor at the
  end; the insert of the record for 3 that follows returns and puts 3 behind 1 at the
  end; the remove of 1 after that, again out of order, returns too.
\<close>

theorem out_of_order_unchecked_counterexample:
  "remove_global exampleBuild False exampleSets 5 (exampleHeap, exampleModifier False) =
     Return True
       (exampleHeap\<lparr>cells := [0 \<mapsto> [RemoteIndex_attr_local 2 (Ptr 1 0)]]\<rparr>,
        exampleModifier False\<lparr>iter' := 1, first' := False, last' := 5\<rparr>)
   \<and> insert_index exampleBuild exampleSets (RemoteIndex_attr_local 0 (Ptr 1 1))
       (exampleHeap\<lparr>cells := [0 \<mapsto> [RemoteIndex_attr_local 2 (Ptr 1 0)]]\<rparr>,
        exampleModifier False\<lparr>iter' := 1, first' := False, last' := 5\<rparr>) =
     Return ()
       (exampleHeap\<lparr>cells := [0 \<mapsto> [RemoteIndex_attr_local 2 (Ptr 1 0),
                                         RemoteIndex_attr_local 0 (Ptr 1 1)]]\<rparr>,
        exampleModifier False\<lparr>iter' := 1, first' := False, last' := 3\<rparr>)
   \<and> remove_global exampleBuild False exampleSets 1
       (exampleHeap\<lparr>cells := [0 \<mapsto> [RemoteIndex_attr_local 2 (Ptr 1 0),
                                         RemoteIndex_attr_local 0 (Ptr 1 1)]]\<rparr>,
        exampleModifier False\<lparr>iter' := 1, first' := False, last' := 3\<rparr>) =
     Return False
       (exampleHeap\<lparr>cells := [0 \<mapsto> [RemoteIndex_attr_local 2 (Ptr 1 0),
                                         RemoteIndex_attr_local 0 (Ptr 1 1)]]\<rparr>,
        exampleModifier False\<lparr>iter' := 1, first' := False, last' := 1\<rparr>)"
  by (simp add: insert_index_def remove_global_def outOfOrder_def exampleBuild_def
      exampleHeap_def exampleModifier_def exampleList_def globalOf_def localIndexPair_def
      deref_def exampleSets_def examplePair_def RemoteIndex_attr_local_def seekRemote.simps
      iter_insert_def iter_remove_def Let_def)

section \<open>Insertion followed by removal\<close>

lemma seekRemote_returns:
  "\<forall>x\<in>set l. \<exists>gx. globalOf sets x = Inr gx \<Longrightarrow> \<exists>i. seekRemote sets l (Inr b) j = Inr i"
proof (induction "length l - j" arbitrary: j rule: less_induct)
  case less
  show ?case
  proof (cases "j < length l")
    case False
    then show ?thesis by (subst seekRemote.simps) simp
  next
    case True
    with less.prems obtain gx where gx: "globalOf sets (l ! j) = Inr gx"
      by (metis nth_mem)
    show ?thesis
    proof (cases "gx < b")
      case False
      with True gx show ?thesis by (subst seekRemote.simps) simp
    next
      case lt: True
      have "length l - Suc j < length l - j" using True by simp
      from less.hyps[OF this less.prems] obtain i where
        "seekRemote sets l (Inr b) (Suc j) = Inr i" by blast
      with True gx lt show ?thesis by (subst seekRemote.simps) simp
    qed
  qed
qed

lemma insert_index_returns:
  assumes l: "cells h (rList' m) = Some l"
    and g: "globalOf sets index = Inr g"
    and valid: "\<forall>x\<in>set l. \<exists>gx. globalOf sets x = Inr gx \<and> gx \<noteq> g"
    and order: "\<not> (withChecking cfg \<and> \<not> first' m \<and> g < last' m)"
  shows "\<exists>ha ma. insert_index cfg sets index (h, m) = Return () (ha, ma)"
proof -
  from order g have o: "outOfOrder cfg m (globalOf sets index) = Inr False"
    by (auto simp: outOfOrder_def)
  from valid have "\<forall>x\<in>set l. \<exists>gx. globalOf sets x = Inr gx" by blast
  from seekRemote_returns[OF this] obtain i where
    seek: "seekRemote sets l (Inr g) (iter' m) = Inr i" by blast
  have check:
    "(if ndebug cfg \<or> \<not> i < length l then Inr True
      else (case globalOf sets (l ! i) of
              Inl f \<Rightarrow> Inl f
            | Inr gx \<Rightarrow>
                (case globalOf sets index of
                   Inl f \<Rightarrow> Inl f
                 | Inr gi \<Rightarrow> Inr (gx \<noteq> gi)))) = (Inr True :: fault + bool)"
  proof (cases "ndebug cfg \<or> \<not> i < length l")
    case True
    then show ?thesis by auto
  next
    case False
    then have "l ! i \<in> set l" by simp
    with valid obtain gx where "globalOf sets (l ! i) = Inr gx" "gx \<noteq> g" by blast
    with False g show ?thesis by simp
  qed
  show ?thesis
    unfolding insert_index_def Let_def fst_conv snd_conv o
    by (simp add: l g seek check iter_insert_def)
qed

text \<open>
  C5. Through a modifier whose cursors are positions of their lists, inserting the
  record for the global index G into the list L and then at once removing G leaves the
  list equal to L: the removal finds the record where the insertion has left the cursor,
  returns true, and the heap is the one before the insertion. In the mode that keeps a
  shadow list of global indices, that list is restored as well. And the insertion does
  return, in the mode without a shadow list, when the list is live, the back-references
  of its records and of the new record resolve, G is the global index of no record of
  L, and G is not smaller than the global index last touched (or the build does not
  test the order).
\<close>

theorem insert_then_remove_restores:
  "(insert_mode mode cfg sets index g (h, m) = Return () (h1, m1)
    \<and> cells h (rList' m) = Some l
    \<and> (mode \<or> globalOf sets index = Inr g)
    \<and> iter' m \<le> length l \<and> giter' m \<le> length (glist' m) \<longrightarrow>
      remove_global cfg mode sets g (h1, m1) = Return True (h, m1\<lparr>glist' := glist' m\<rparr>)
      \<and> cells h (rList' m1) = Some l)
   \<and> (cells h (rList' m) = Some l
      \<and> globalOf sets index = Inr g
      \<and> (\<forall>x\<in>set l. \<exists>gx. globalOf sets x = Inr gx \<and> gx \<noteq> g)
      \<and> \<not> (withChecking cfg \<and> \<not> first' m \<and> g < last' m) \<longrightarrow>
        (\<exists>ha ma. insert_mode False cfg sets index g (h, m) = Return () (ha, ma)))"
proof (intro conjI impI)
  assume "cells h (rList' m) = Some l
      \<and> globalOf sets index = Inr g
      \<and> (\<forall>x\<in>set l. \<exists>gx. globalOf sets x = Inr gx \<and> gx \<noteq> g)
      \<and> \<not> (withChecking cfg \<and> \<not> first' m \<and> g < last' m)"
  then show "\<exists>ha ma. insert_mode False cfg sets index g (h, m) = Return () (ha, ma)"
    using insert_index_returns[of h m l sets index g cfg] by (simp add: insert_mode_def)
next
  assume a: "insert_mode mode cfg sets index g (h, m) = Return () (h1, m1)
    \<and> cells h (rList' m) = Some l
    \<and> (mode \<or> globalOf sets index = Inr g)
    \<and> iter' m \<le> length l \<and> giter' m \<le> length (glist' m)"
  then have ins: "insert_mode mode cfg sets index g (h, m) = Return () (h1, m1)"
    and l: "cells h (rList' m) = Some l"
    and g: "mode \<or> globalOf sets index = Inr g"
    and cur: "iter' m \<le> length l" "giter' m \<le> length (glist' m)"
    by simp_all
  have "remove_global cfg mode sets g (h1, m1) = Return True (h, m1\<lparr>glist' := glist' m\<rparr>)
        \<and> cells h (rList' m1) = Some l"
  proof (cases mode)
    case False
    from ins l g False obtain i where
      seek: "seekRemote sets l (Inr g) (iter' m) = Inr i"
      and h1: "h1 = h\<lparr>cells := (cells h)(rList' m \<mapsto> take i l @ index # drop i l)\<rparr>"
      and m1: "m1 = m\<lparr>iter' := i, last' := g, first' := False\<rparr>"
      by (auto simp: insert_mode_def insert_index_def Let_def iter_insert_def
          split: sum.splits bool.splits option.splits)
    let ?l1 = "take i l @ index # drop i l"
    from seekRemote_le[OF seek cur(1)] have i: "i \<le> length l" .
    have nth: "?l1 ! i = index" using i by (simp add: nth_append)
    have len: "i < length ?l1" using i by simp
    have gi: "globalOf sets index = Inr g" using g False by simp
    have seek2: "seekRemote sets ?l1 (Inr g) i = Inr i"
      using len nth gi
      by (subst seekRemote.simps) (simp only: if_True less_irrefl if_False sum.case)
    have rest: "iter_remove i ?l1 = l" using i by (simp add: iter_remove_def)
    have heap: "h\<lparr>cells := (cells h)(rList' m \<mapsto> l)\<rparr> = h"
      using l by (simp add: fun_upd_idem)
    have "remove_global cfg mode sets g (h1, m1) = Return True (h, m1\<lparr>glist' := glist' m\<rparr>)"
      using seek2 i nth gi rest heap False
      by (simp add: remove_global_def outOfOrder_def h1 m1 Let_def)
    with l show ?thesis by (simp add: m1)
  next
    case True
    from ins l True obtain gi i where
      seek: "seekGlobal (glist' m) l g (giter' m) (iter' m) = Inr (gi, i)"
      and h1: "h1 = h\<lparr>cells := (cells h)(rList' m \<mapsto> take i l @ index # drop i l)\<rparr>"
      and m1: "m1 = m\<lparr>glist' := take gi (glist' m) @ g # drop gi (glist' m), iter' := i,
                       giter' := gi, last' := g, first' := False\<rparr>"
      by (auto simp: insert_mode_def insert_index_global_def Let_def iter_insert_def
          split: sum.splits bool.splits option.splits prod.splits)
    let ?l1 = "take i l @ index # drop i l"
    let ?gl1 = "take gi (glist' m) @ g # drop gi (glist' m)"
    from seekGlobal_le[OF seek cur(2) cur(1)] have
      gi: "gi \<le> length (glist' m)" and i: "i \<le> length l" by auto
    have gnth: "?gl1 ! gi = g" using gi by (simp add: nth_append)
    have glen: "gi < length ?gl1" using gi by simp
    have len: "i < length ?l1" using i by simp
    have seek2: "seekGlobal ?gl1 ?l1 g gi i = Inr (gi, i)"
      using len glen gnth by (subst seekGlobal.simps) (simp only: if_True less_irrefl if_False)
    have rest: "iter_remove i ?l1 = l" using i by (simp add: iter_remove_def)
    have grest: "iter_remove gi ?gl1 = glist' m" using gi by (simp add: iter_remove_def)
    have heap: "h\<lparr>cells := (cells h)(rList' m \<mapsto> l)\<rparr> = h"
      using l by (simp add: fun_upd_idem)
    have "remove_global cfg mode sets g (h1, m1) = Return True (h, m1\<lparr>glist' := glist' m\<rparr>)"
      using seek2 i gi gnth rest grest heap True
      by (simp add: remove_global_def outOfOrder_def h1 m1 Let_def)
    with l show ?thesis by (simp add: m1)
  qed
  then show "remove_global cfg mode sets g (h1, m1) =
               Return True (h, m1\<lparr>glist' := glist' m\<rparr>)"
    and "cells h (rList' m1) = Some l"
    by simp_all
qed

theorem insert_then_remove_restores_witness:
  "insert_mode False exampleBuild exampleSets (RemoteIndex_attr_local 0 (Ptr 1 1)) 3
     (exampleHeap, exampleModifier False) =
   Return ()
     (exampleHeap\<lparr>cells := [0 \<mapsto> [RemoteIndex_attr_local 2 (Ptr 1 0),
                                       RemoteIndex_attr_local 0 (Ptr 1 1),
                                       RemoteIndex_attr_local 2 (Ptr 1 2)]]\<rparr>,
      exampleModifier False\<lparr>iter' := 1, last' := 3, first' := False\<rparr>)
   \<and> remove_global exampleBuild False exampleSets 3
       (exampleHeap\<lparr>cells := [0 \<mapsto> [RemoteIndex_attr_local 2 (Ptr 1 0),
                                         RemoteIndex_attr_local 0 (Ptr 1 1),
                                         RemoteIndex_attr_local 2 (Ptr 1 2)]]\<rparr>,
        exampleModifier False\<lparr>iter' := 1, last' := 3, first' := False\<rparr>) =
     Return True (exampleHeap, exampleModifier False\<lparr>iter' := 1, last' := 3, first' := False\<rparr>)
   \<and> cells exampleHeap 0 =
       Some [RemoteIndex_attr_local 2 (Ptr 1 0), RemoteIndex_attr_local 2 (Ptr 1 2)]
   \<and> globalOf exampleSets (RemoteIndex_attr_local 0 (Ptr 1 1)) = Inr 3
   \<and> map (globalOf exampleSets) exampleList = [Inr 1, Inr 5]
   \<and> \<not> (withChecking exampleBuild \<and> \<not> first' (exampleModifier False)
          \<and> 3 < last' (exampleModifier False))
   \<and> (\<exists>ha ma. insert_mode False exampleBuild exampleSets (RemoteIndex_attr_local 0 (Ptr 1 1)) 3
                 (exampleHeap, exampleModifier False) = Return () (ha, ma))"
proof -
  let ?index = "RemoteIndex_attr_local 0 (Ptr 1 1)"
  let ?h1 = "exampleHeap\<lparr>cells := [0 \<mapsto> [RemoteIndex_attr_local 2 (Ptr 1 0), ?index,
                                             RemoteIndex_attr_local 2 (Ptr 1 2)]]\<rparr>"
  let ?m1 = "exampleModifier False\<lparr>iter' := 1, last' := 3, first' := False\<rparr>"
  have ins: "insert_mode False exampleBuild exampleSets ?index 3
               (exampleHeap, exampleModifier False) = Return () (?h1, ?m1)"
    by (simp add: insert_mode_def insert_index_def outOfOrder_def exampleBuild_def
        exampleHeap_def exampleModifier_def exampleList_def globalOf_def localIndexPair_def
        deref_def exampleSets_def examplePair_def RemoteIndex_attr_local_def
        seekRemote.simps iter_insert_def Let_def)
  have l: "cells exampleHeap (rList' (exampleModifier False)) = Some exampleList"
    by (simp add: exampleHeap_def exampleModifier_def)
  have g: "globalOf exampleSets ?index = Inr 3"
    by (simp add: globalOf_def localIndexPair_def deref_def exampleSets_def examplePair_def
        RemoteIndex_attr_local_def)
  have c1: "iter' (exampleModifier False) \<le> length exampleList"
    and c2: "giter' (exampleModifier False) \<le> length (glist' (exampleModifier False))"
    by (simp_all add: exampleModifier_def)
  have valid: "\<forall>x\<in>set exampleList. \<exists>gx. globalOf exampleSets x = Inr gx \<and> gx \<noteq> 3"
    by (simp add: exampleList_def globalOf_def localIndexPair_def deref_def exampleSets_def
        examplePair_def RemoteIndex_attr_local_def)
  have order: "\<not> (withChecking exampleBuild \<and> \<not> first' (exampleModifier False)
                   \<and> 3 < last' (exampleModifier False))"
    by (simp add: exampleBuild_def)
  have e: "?m1\<lparr>glist' := glist' (exampleModifier False)\<rparr> = ?m1" by simp
  have el: "cells exampleHeap 0 =
              Some [RemoteIndex_attr_local 2 (Ptr 1 0), RemoteIndex_attr_local 2 (Ptr 1 2)]"
    by (simp add: exampleHeap_def exampleList_def)
  note inst = insert_then_remove_restores
                [of False exampleBuild exampleSets ?index 3 exampleHeap "exampleModifier False"
                    ?h1 ?m1 exampleList]
  from inst ins l g c1 c2 have
    "remove_global exampleBuild False exampleSets 3 (?h1, ?m1) =
       Return True (exampleHeap, ?m1\<lparr>glist' := glist' (exampleModifier False)\<rparr>)"
    by blast
  with e have rem: "remove_global exampleBuild False exampleSets 3 (?h1, ?m1) =
                      Return True (exampleHeap, ?m1)" by simp
  from inst l g valid order have
    ret: "\<exists>ha ma. insert_mode False exampleBuild exampleSets ?index 3
                    (exampleHeap, exampleModifier False) = Return () (ha, ma)"
    by blast
  have globals: "map (globalOf exampleSets) exampleList = [Inr 1, Inr 5]"
    by (simp add: exampleList_def globalOf_def localIndexPair_def deref_def exampleSets_def
        examplePair_def RemoteIndex_attr_local_def)
  from ins rem el g globals order ret show ?thesis by blast
qed

section \<open>The collective iterator: advance and iteration\<close>

lemma forward_dropWhile:
  "list_all (\<lambda>r. case globalOf sets r of Inl f \<Rightarrow> False | Inr g \<Rightarrow> True) cur \<Longrightarrow>
   forward sets g cur = Inr (dropWhile (\<lambda>r. referenced sets r < g) cur)"
  by (induction cur) (auto simp: referenced_def split: sum.splits)

lemma advance_loop_spec:
  "validReferences sets m \<Longrightarrow> advance_loop sets g m = Inr (advance_spec sets g m)"
proof (induction m)
  case Nil
  then show ?case by (simp add: advance_spec_def)
next
  case (Cons e m)
  obtain p cur where e: "e = (p, cur)" by (cases e)
  from Cons.prems e have
    v: "list_all (\<lambda>r. case globalOf sets r of Inl f \<Rightarrow> False | Inr g \<Rightarrow> True) cur"
    and vm: "validReferences sets m"
    by (simp_all add: validReferences_def)
  from Cons.IH[OF vm] forward_dropWhile[OF v] show ?case
    by (simp add: e advance_spec_def)
qed

lemma advance_spec_cursors:
  assumes "validReferences sets m" and "(p, cur) \<in> set (advance_spec sets g m)"
  shows "cur \<noteq> [] \<and> (\<exists>x. globalOf sets (hd cur) = Inr x \<and> \<not> x < g)"
proof -
  from assms(2) obtain cur0 where
    c0: "(p, cur0) \<in> set m" and cur: "cur = dropWhile (\<lambda>r. referenced sets r < g) cur0"
    and ne: "cur \<noteq> []"
    by (auto simp: advance_spec_def)
  from ne cur have h: "hd cur \<in> set cur0" "\<not> referenced sets (hd cur) < g"
    using hd_dropWhile[of "\<lambda>r. referenced sets r < g" cur0]
      set_dropWhileD[of "hd cur" "\<lambda>r. referenced sets r < g" cur0] hd_in_set[of cur]
    by auto
  from assms(1) c0 h(1) have
    "case globalOf sets (hd cur) of Inl f \<Rightarrow> False | Inr g \<Rightarrow> True"
    unfolding validReferences_def list_all_iff by fast
  then obtain x where "globalOf sets (hd cur) = Inr x"
    by (cases "globalOf sets (hd cur)") auto
  with h(2) ne show ?thesis by (simp add: referenced_def)
qed

lemma traverse_spec:
  assumes "\<forall>(p, cur)\<in>set m. cur \<noteq> [] \<and> (\<exists>x. globalOf sets (hd cur) = Inr x)"
  shows "\<exists>pos. skip_invalid sets g m = Inr pos \<and>
           traverse sets g pos = Inr (iteration_spec sets g m)"
  using assms
proof (induction m)
  case Nil
  show ?case by (simp add: iteration_spec_def traverse.simps)
next
  case (Cons e m)
  obtain p cur where e: "e = (p, cur)" by (cases e)
  from Cons.prems e obtain r rs x where
    cur: "cur = r # rs" and x: "globalOf sets r = Inr x"
    by (cases cur) auto
  from Cons.prems have "\<forall>(p, cur)\<in>set m. cur \<noteq> [] \<and> (\<exists>x. globalOf sets (hd cur) = Inr x)"
    by simp
  from Cons.IH[OF this] obtain pos where
    pos: "skip_invalid sets g m = Inr pos"
      "traverse sets g pos = Inr (iteration_spec sets g m)" by blast
  show ?case
  proof (cases "x = g")
    case False
    with pos x show ?thesis by (simp add: e cur iteration_spec_def referenced_def)
  next
    case True
    have "traverse sets g ((p, cur) # m) = Inr ((p, r) # iteration_spec sets g m)"
      by (subst traverse.simps) (simp add: process_of_def star_def increment_def cur pos)
    with True x show ?thesis by (simp add: e cur iteration_spec_def referenced_def)
  qed
qed

text \<open>
  C6. On a collective iterator whose cursors hold records with valid back-references,
  \<open>advance(G)\<close> returns; it has forwarded every cursor past the records whose referenced
  global index is smaller than \<open>G\<close>, dropped the peers whose cursor reached its end and
  stored \<open>G\<close>; the traversal from \<open>begin()\<close> to \<open>end()\<close> that follows yields, in the order of
  the ranks, the remaining peers whose cursor references a record with global index
  \<open>G\<close>, each with that record.
\<close>

theorem advance_then_iteration:
  assumes "validReferences sets (map' it)"
  shows "advance sets g it = Inr \<lparr>map' = advance_spec sets g (map' it), index' = g\<rparr>
       \<and> iteration sets \<lparr>map' = advance_spec sets g (map' it), index' = g\<rparr> =
           Inr (iteration_spec sets g (advance_spec sets g (map' it)))"
proof -
  have a: "advance sets g it = Inr \<lparr>map' = advance_spec sets g (map' it), index' = g\<rparr>"
    using advance_loop_spec[OF assms] by (simp add: advance_def)
  have "\<forall>(p, cur)\<in>set (advance_spec sets g (map' it)).
          cur \<noteq> [] \<and> (\<exists>x. globalOf sets (hd cur) = Inr x)"
    using advance_spec_cursors[OF assms] by blast
  from traverse_spec[OF this] obtain pos where
    "skip_invalid sets g (advance_spec sets g (map' it)) = Inr pos"
    "traverse sets g pos = Inr (iteration_spec sets g (advance_spec sets g (map' it)))"
    by blast
  then have
    "iteration sets \<lparr>map' = advance_spec sets g (map' it), index' = g\<rparr> =
       Inr (iteration_spec sets g (advance_spec sets g (map' it)))"
    by (simp add: iteration_def begin_iterator_def)
  with a show ?thesis by simp
qed

theorem advance_then_iteration_witness:
  "validReferences exampleSets (map' exampleIterator)
   \<and> advance exampleSets 3 exampleIterator =
       Inr \<lparr>map' =
              [(1, [RemoteIndex_attr_local 0 (Ptr 1 1), RemoteIndex_attr_local 0 (Ptr 2 1)]),
               (2, [RemoteIndex_attr_local 1 (Ptr 1 1), RemoteIndex_attr_local 1 (Ptr 1 2),
                    RemoteIndex_attr_local 1 (Ptr 2 1)])],
            index' = 3\<rparr>
   \<and> iteration exampleSets
        \<lparr>map' =
           [(1, [RemoteIndex_attr_local 0 (Ptr 1 1), RemoteIndex_attr_local 0 (Ptr 2 1)]),
            (2, [RemoteIndex_attr_local 1 (Ptr 1 1), RemoteIndex_attr_local 1 (Ptr 1 2),
                 RemoteIndex_attr_local 1 (Ptr 2 1)])],
         index' = 3\<rparr> =
       Inr [(1, RemoteIndex_attr_local 0 (Ptr 1 1)), (2, RemoteIndex_attr_local 1 (Ptr 1 1))]"
proof -
  have v: "validReferences exampleSets (map' exampleIterator)"
    by (simp add: validReferences_def exampleIterator_def globalOf_def localIndexPair_def
        deref_def exampleSets_def RemoteIndex_attr_local_def)
  have s: "advance_spec exampleSets 3 (map' exampleIterator) =
             [(1, [RemoteIndex_attr_local 0 (Ptr 1 1), RemoteIndex_attr_local 0 (Ptr 2 1)]),
              (2, [RemoteIndex_attr_local 1 (Ptr 1 1), RemoteIndex_attr_local 1 (Ptr 1 2),
                   RemoteIndex_attr_local 1 (Ptr 2 1)])]"
    by (simp add: advance_spec_def exampleIterator_def referenced_def globalOf_def
        localIndexPair_def deref_def exampleSets_def examplePair_def RemoteIndex_attr_local_def)
  have i: "iteration_spec exampleSets 3
             [(1, [RemoteIndex_attr_local 0 (Ptr 1 1), RemoteIndex_attr_local 0 (Ptr 2 1)]),
              (2, [RemoteIndex_attr_local 1 (Ptr 1 1), RemoteIndex_attr_local 1 (Ptr 1 2),
                   RemoteIndex_attr_local 1 (Ptr 2 1)])] =
           [(1, RemoteIndex_attr_local 0 (Ptr 1 1)), (2, RemoteIndex_attr_local 1 (Ptr 1 1))]"
    by (simp add: iteration_spec_def referenced_def globalOf_def
        localIndexPair_def deref_def exampleSets_def examplePair_def RemoteIndex_attr_local_def)
  from advance_then_iteration[OF v, of 3] have
    "advance exampleSets 3 exampleIterator =
       Inr \<lparr>map' = advance_spec exampleSets 3 (map' exampleIterator), index' = 3\<rparr>
     \<and> iteration exampleSets
         \<lparr>map' = advance_spec exampleSets 3 (map' exampleIterator), index' = 3\<rparr> =
       Inr (iteration_spec exampleSets 3 (advance_spec exampleSets 3 (map' exampleIterator)))" .
  then show ?thesis unfolding s i using v by blast
qed

section \<open>Rebuilding\<close>

lemma setBuffer_ringNet [simp]: "ringNet (setBuffer i b st) = ringNet st"
  by (simp add: setBuffer_def)

lemma setBuffer_ringMap [simp]: "ringMap (setBuffer i b st) = ringMap st"
  by (simp add: setBuffer_def)

lemma packFirst_keeps:
  "packFirst cfg ignorePublic sets r loc out st = Inr st1 \<Longrightarrow>
   ringNet st1 = ringNet st \<and> ringMap st1 = ringMap st"
  by (auto simp: packFirst_def Let_def split: sum.splits if_splits prod.splits)

lemma processMessage_ringNet:
  "processMessage sets loc proc st = Inr st1 \<Longrightarrow> ringNet st1 = ringNet st"
  by (auto simp: processMessage_def Let_def split: sum.splits if_splits prod.splits)

lemma MPI_Recv_traffic:
  "MPI_Recv loc inb st = Inr st1 \<Longrightarrow>
   traffic (ringNet st1) =
     traffic (ringNet st) @ [Recv ((rank loc + procs loc - 1) mod procs loc)]"
  by (auto simp: MPI_Recv_def split: list.splits)

lemma MPI_Ssend_traffic:
  "\<exists>b. traffic (ringNet (MPI_Ssend loc out st)) =
         traffic (ringNet st) @ [Ssend ((rank loc + 1) mod procs loc) b]"
  by (simp add: MPI_Ssend_def)

lemma MPI_Sendrecv_traffic:
  "\<exists>b. traffic (ringNet (MPI_Sendrecv loc out inb st)) =
         traffic (ringNet st) @ [Sendrecv (rank loc) b]"
  by (simp add: MPI_Sendrecv_def Let_def)

lemma hop_traffic:
  assumes "hop cfg ignorePublic sets r loc proc st = Inr st1"
  shows "\<exists>evs. traffic (ringNet st1) = traffic (ringNet st) @ evs
               \<and> map shape evs = hopEvents loc proc"
proof -
  consider (a) "proc = 0" "\<not> sendTwo loc" | (b) "proc = 0" "sendTwo loc"
    | (c) "proc \<noteq> 0" "rank loc mod 2 = 0" | (d) "proc \<noteq> 0" "rank loc mod 2 \<noteq> 0"
    by blast
  then show ?thesis
  proof cases
    case a
    with assms have "ringNet st1 = ringNet st"
      by (auto simp: hop_def Let_def split: sum.splits if_splits dest: packFirst_keeps)
    with a show ?thesis by (simp add: hopEvents_def)
  next
    case b
    with assms obtain sta where
      p: "packFirst cfg ignorePublic sets r loc 1 st = Inr sta"
      and m: "processMessage sets loc 0 (MPI_Sendrecv loc 1 0 sta) = Inr st1"
      by (cases "packFirst cfg ignorePublic sets r loc 1 st") (auto simp: hop_def Let_def)
    from MPI_Sendrecv_traffic[of loc 1 0 sta] obtain buf where
      "traffic (ringNet (MPI_Sendrecv loc 1 0 sta)) =
         traffic (ringNet sta) @ [Sendrecv (rank loc) buf]" by blast
    with packFirst_keeps[OF p] processMessage_ringNet[OF m] have
      "traffic (ringNet st1) = traffic (ringNet st) @ [Sendrecv (rank loc) buf]" by simp
    with b show ?thesis by (simp add: hopEvents_def)
  next
    case c
    with assms obtain st2 where
      rc: "MPI_Recv loc (proc mod 2) (MPI_Ssend loc (1 - proc mod 2) st) = Inr st2"
      and m: "processMessage sets loc proc st2 = Inr st1"
      by (cases "MPI_Recv loc (proc mod 2) (MPI_Ssend loc (1 - proc mod 2) st)")
         (auto simp: hop_def Let_def)
    from MPI_Ssend_traffic[of loc "1 - proc mod 2" st] obtain buf where
      "traffic (ringNet (MPI_Ssend loc (1 - proc mod 2) st)) =
         traffic (ringNet st) @ [Ssend ((rank loc + 1) mod procs loc) buf]" by blast
    with MPI_Recv_traffic[OF rc] processMessage_ringNet[OF m] have
      "traffic (ringNet st1) =
         traffic (ringNet st) @ [Ssend ((rank loc + 1) mod procs loc) buf,
                                  Recv ((rank loc + procs loc - 1) mod procs loc)]"
      by simp
    with c show ?thesis by (simp add: hopEvents_def)
  next
    case d
    with assms obtain st2 where
      rc: "MPI_Recv loc (proc mod 2) st = Inr st2"
      and m: "processMessage sets loc proc (MPI_Ssend loc (1 - proc mod 2) st2) = Inr st1"
      by (cases "MPI_Recv loc (proc mod 2) st") (auto simp: hop_def Let_def)
    from MPI_Ssend_traffic[of loc "1 - proc mod 2" st2] obtain buf where
      "traffic (ringNet (MPI_Ssend loc (1 - proc mod 2) st2)) =
         traffic (ringNet st2) @ [Ssend ((rank loc + 1) mod procs loc) buf]" by blast
    with MPI_Recv_traffic[OF rc] processMessage_ringNet[OF m] have
      "traffic (ringNet st1) =
         traffic (ringNet st) @ [Recv ((rank loc + procs loc - 1) mod procs loc),
                                  Ssend ((rank loc + 1) mod procs loc) buf]"
      by simp
    with d show ?thesis by (simp add: hopEvents_def)
  qed
qed

lemma ring_traffic:
  "ring cfg ignorePublic sets r loc proc st = Inr st1 \<Longrightarrow>
   \<exists>evs. traffic (ringNet st1) = traffic (ringNet st) @ evs
         \<and> map shape evs = concat (map (hopEvents loc) [proc..<procs loc])"
proof (induction cfg ignorePublic sets r loc proc st rule: ring.induct)
  case (1 cfg ignorePublic sets r loc proc st)
  show ?case
  proof (cases "proc < procs loc")
    case False
    with "1.prems" show ?thesis by (subst (asm) ring.simps) simp
  next
    case True
    with "1.prems" obtain st2 where
      h: "hop cfg ignorePublic sets r loc proc st = Inr st2"
      and r: "ring cfg ignorePublic sets r loc (Suc proc) st2 = Inr st1"
      by (subst (asm) ring.simps) (auto split: sum.splits)
    from hop_traffic[OF h] obtain evs1 where
      e1: "traffic (ringNet st2) = traffic (ringNet st) @ evs1"
      and s1: "map shape evs1 = hopEvents loc proc" by auto
    from "1.IH"[OF True h r] obtain evs2 where
      e2: "traffic (ringNet st1) = traffic (ringNet st2) @ evs2"
      and s2: "map shape evs2 = concat (map (hopEvents loc) [Suc proc..<procs loc])" by auto
    have "[proc..<procs loc] = proc # [Suc proc..<procs loc]"
      using True by (simp add: upt_conv_Cons)
    then have "map shape (evs1 @ evs2) = concat (map (hopEvents loc) [proc..<procs loc])"
      using s1 s2 by simp
    moreover have "traffic (ringNet st1) = traffic (ringNet st) @ evs1 @ evs2"
      using e1 e2 by simp
    ultimately show ?thesis by blast
  qed
qed

lemma buildRemote_traffic:
  assumes "buildRemote cfg ignorePublic sets (r, h, net) = Inr (r1, h1, net1)"
  shows "\<exists>evs. traffic net1 = traffic net @ evs
               \<and> map shape evs = protocolEvents (buildLocals ignorePublic sets r)"
proof -
  let ?loc = "buildLocals ignorePublic sets r"
  let ?n = "sourcePublish ?loc + destPublish ?loc"
  let ?st0 = "\<lparr>ringMap = remoteIndices' r, ringHeap = h,
               ringNet = net\<lparr>traffic := traffic net @ [Allreduce ?n]\<rparr>,
               buffer0 = [], buffer1 = [], position = 0, sourcePairs = [], destPairs = []\<rparr>"
  from assms obtain st where
    rg: "ring cfg ignorePublic sets r ?loc 0 ?st0 = Inr st"
    by (cases "ring cfg ignorePublic sets r ?loc 0 ?st0") (auto simp: buildRemote_def Let_def)
  with assms have n1: "traffic net1 = traffic (ringNet st) @ [Barrier]"
    by (auto simp: buildRemote_def Let_def)
  from ring_traffic[OF rg] obtain evs where
    e: "traffic (ringNet st) = (traffic net @ [Allreduce ?n]) @ evs"
    and s: "map shape evs = concat (map (hopEvents ?loc) [0..<procs ?loc])" by auto
  from n1 e have "traffic net1 = traffic net @ (Allreduce ?n # evs @ [Barrier])" by simp
  moreover from s have "map shape (Allreduce ?n # evs @ [Barrier]) = protocolEvents ?loc"
    by (simp add: protocolEvents_def)
  ultimately show ?thesis by blast
qed

lemma buildRemote_registry:
  "buildRemote cfg ignorePublic sets (r, h, net) = Inr (r1, h1, net1) \<Longrightarrow>
   \<exists>m. r1 = r\<lparr>remoteIndices' := m\<rparr>"
  by (auto simp: buildRemote_def Let_def split: sum.splits)

lemma free_locals:
  "free (r, h) = Inr (r2, h2) \<Longrightarrow>
   buildLocals ignorePublic sets r2 = buildLocals ignorePublic sets r"
  by (auto simp: free_def buildLocals_def split: sum.splits)

lemma rebuild_needed:
  assumes "firstBuild r \<or> ignorePublic \<noteq> publicIgnored r \<or> \<not> isSynced sets r"
  shows "(rebuild cfg ignorePublic sets (r, h, net) = Inr (r1, h1, net1)) =
         (\<exists>r2 h2 r3. free (r, h) = Inr (r2, h2)
            \<and> buildRemote cfg ignorePublic sets (r2, h2, net) = Inr (r3, h1, net1)
            \<and> r1 = r3\<lparr>sourceSeqNo' := seqNo (sets (source' r3)),
                       destSeqNo' := seqNo (sets (target' r3)),
                       firstBuild := False, publicIgnored := ignorePublic\<rparr>)"
proof
  assume a: "rebuild cfg ignorePublic sets (r, h, net) = Inr (r1, h1, net1)"
  from a assms obtain r2 h2 where f: "free (r, h) = Inr (r2, h2)"
    by (cases "free (r, h)") (auto simp: rebuild_def Let_def)
  from a assms f obtain r3 h3 net3 where
    b: "buildRemote cfg ignorePublic sets (r2, h2, net) = Inr (r3, h3, net3)"
    by (cases "buildRemote cfg ignorePublic sets (r2, h2, net)")
       (auto simp: rebuild_def Let_def)
  from a assms f b have
    "r1 = r3\<lparr>sourceSeqNo' := seqNo (sets (source' r3)),
             destSeqNo' := seqNo (sets (target' r3)),
             firstBuild := False, publicIgnored := ignorePublic\<rparr>"
    and "h1 = h3" and "net1 = net3"
    by (auto simp: rebuild_def Let_def)
  with f b show "\<exists>r2 h2 r3. free (r, h) = Inr (r2, h2)
            \<and> buildRemote cfg ignorePublic sets (r2, h2, net) = Inr (r3, h1, net1)
            \<and> r1 = r3\<lparr>sourceSeqNo' := seqNo (sets (source' r3)),
                       destSeqNo' := seqNo (sets (target' r3)),
                       firstBuild := False, publicIgnored := ignorePublic\<rparr>"
    by blast
next
  assume "\<exists>r2 h2 r3. free (r, h) = Inr (r2, h2)
            \<and> buildRemote cfg ignorePublic sets (r2, h2, net) = Inr (r3, h1, net1)
            \<and> r1 = r3\<lparr>sourceSeqNo' := seqNo (sets (source' r3)),
                       destSeqNo' := seqNo (sets (target' r3)),
                       firstBuild := False, publicIgnored := ignorePublic\<rparr>"
  with assms show "rebuild cfg ignorePublic sets (r, h, net) = Inr (r1, h1, net1)"
    by (auto simp: rebuild_def Let_def)
qed

lemma rebuild_returned:
  assumes "rebuild cfg ignorePublic sets (r, h, net) = Inr (r1, h1, net1)"
  shows "(traffic net1 \<noteq> traffic net) =
           (firstBuild r \<or> ignorePublic \<noteq> publicIgnored r \<or> \<not> isSynced sets r)
       \<and> ((firstBuild r \<or> ignorePublic \<noteq> publicIgnored r \<or> \<not> isSynced sets r) \<longrightarrow>
            (\<exists>evs. traffic net1 = traffic net @ evs
                  \<and> map shape evs = protocolEvents (buildLocals ignorePublic sets r)))
       \<and> rebuild cfg ignorePublic sets (r1, h1, net1) = Inr (r1, h1, net1)"
proof (cases "firstBuild r \<or> ignorePublic \<noteq> publicIgnored r \<or> \<not> isSynced sets r")
  case False
  with assms have "r1 = r" "h1 = h" "net1 = net"
    by (auto simp: rebuild_def Let_def)
  with assms False show ?thesis by simp
next
  case True
  from rebuild_needed[OF True, of cfg h net r1 h1 net1] assms obtain r2 h2 r3 where
    f: "free (r, h) = Inr (r2, h2)"
    and b: "buildRemote cfg ignorePublic sets (r2, h2, net) = Inr (r3, h1, net1)"
    and r1: "r1 = r3\<lparr>sourceSeqNo' := seqNo (sets (source' r3)),
                     destSeqNo' := seqNo (sets (target' r3)),
                     firstBuild := False, publicIgnored := ignorePublic\<rparr>"
    by blast
  from buildRemote_traffic[OF b] free_locals[OF f] obtain evs where
    e: "traffic net1 = traffic net @ evs"
    and s: "map shape evs = protocolEvents (buildLocals ignorePublic sets r)" by auto
  from s have "evs \<noteq> []" by (auto simp: protocolEvents_def)
  with e have t: "traffic net1 \<noteq> traffic net" by simp
  have "\<not> (firstBuild r1 \<or> ignorePublic \<noteq> publicIgnored r1 \<or> \<not> isSynced sets r1)"
    by (simp add: r1 isSynced_def)
  then have "rebuild cfg ignorePublic sets (r1, h1, net1) = Inr (r1, h1, net1)"
    by (simp add: rebuild_def Let_def)
  with t True e s show ?thesis by blast
qed

section \<open>Back-references built by the two-list unpacking\<close>

text \<open>
  C1. The process holds the first example set as source (1 and 5 are published, at the
  slots 0 and 2) and the second as target (5 and 7). A peer with one index set sends the
  merged list that holds only the global index 5. The two-list \<open>unpackIndices\<close> finds 5
  in the target array at place 0 but takes the back-reference of the receive record
  from place 1, the place reached in the source array: the record refers to the target
  record with global index 7. With a target array of one slot the same read is out of
  bounds. The last part runs \<open>buildRemote\<close> at rank 0 of two processes with that
  message in the inbox: the receive list stored for peer 1 holds the wrong record.
\<close>

theorem unpackIndices_two_lists_back_reference:
  "unpackIndices2 exampleSets [] [] 1 [Ptr 1 0, Ptr 1 2] 2 [Ptr 2 0, Ptr 2 1] 2
     [PairItem (examplePair 5 9 1 True)] 0 =
   Inr ([RemoteIndex_attr_local 1 (Ptr 1 2)], [RemoteIndex_attr_local 1 (Ptr 2 1)], 1)
   \<and> globalOf exampleSets (RemoteIndex_attr_local 1 (Ptr 1 2)) = Inr 5
   \<and> globalOf exampleSets (RemoteIndex_attr_local 1 (Ptr 2 1)) = Inr 7
   \<and> unpackIndices2 exampleSets [] [] 1 [Ptr 1 0, Ptr 1 2] 2 [Ptr 2 0] 1
       [PairItem (examplePair 5 9 1 True)] 0 = Inl OutOfBounds
   \<and> (case buildRemote exampleBuild False exampleSets
            (RemoteIndices_ctor 1 2 twoProcesses, emptyHeap,
             \<lparr>inbox = [[CharItem 0, IntItem 1, IntItem 0, PairItem (examplePair 5 9 1 True)]],
              traffic = []\<rparr>) of
         Inl f \<Rightarrow> False
       | Inr (r, h, n) \<Rightarrow>
           remoteIndices' r = [(0, (1, 0)), (1, (3, 2))]
           \<and> cells h 2 = Some [RemoteIndex_attr_local 1 (Ptr 2 1)]
           \<and> cells h 3 = Some [RemoteIndex_attr_local 1 (Ptr 1 2)])"
  by (simp add: run_simps)

section \<open>The entry for the process's own rank\<close>

lemma noPublic_loop_filter:
  "noPublic_loop xs n = n + length (filter (\<lambda>x. isPublic (local x)) xs)"
  by (induction xs arbitrary: n) auto

lemma publish_count:
  "(if ignorePublic then length (pairs s) else noPublic s) =
   length (filter (published ignorePublic) (pairs s))"
proof -
  have "published ignorePublic = (\<lambda>x. ignorePublic \<or> isPublic (local x))"
    by (rule ext) (simp add: published_def)
  then show ?thesis by (simp add: noPublic_def noPublic_loop_filter)
qed

lemma packEntries_loop_result:
  "packEntries_loop ignorePublic s xs slot prs p_out (length p_out) =
     (prs @ map (Ptr s) (publishedSlots ignorePublic xs slot),
      p_out @ map PairItem (filter (published ignorePublic) xs),
      length p_out + length (filter (published ignorePublic) xs))"
proof (induction xs arbitrary: slot prs p_out)
  case Nil
  show ?case by simp
next
  case (Cons x xs)
  show ?case
  proof (cases "published ignorePublic x")
    case True
    with Cons.IH[of "Suc slot" "prs @ [Ptr s slot]" "p_out @ [PairItem x]"]
    show ?thesis by (simp add: MPI_Pack_def published_def)
  next
    case False
    with Cons.IH[of "Suc slot" prs p_out]
    show ?thesis by (simp add: published_def)
  qed
qed

lemma publishedSlots_nth:
  "drop slot all = xs \<Longrightarrow>
   map (\<lambda>k. if k < length all then Some (all ! k) else None) (publishedSlots ignorePublic xs slot) =
   map Some (filter (published ignorePublic) xs)"
proof (induction xs arbitrary: slot)
  case Nil
  show ?case by simp
next
  case (Cons x xs)
  from Cons.prems have lt: "slot < length all"
    by (metis drop_all list.distinct(1) not_le_imp_less)
  from Cons.prems lt have x: "all ! slot = x"
    by (metis Cons_nth_drop_Suc list.inject)
  from Cons.prems lt have d: "drop (Suc slot) all = xs"
    by (metis Cons_nth_drop_Suc list.inject)
  from Cons.IH[OF d] lt x show ?case by simp
qed

lemma publishedSlots_deref:
  "map (deref sets) (map (Ptr s) (publishedSlots ignorePublic (pairs (sets s)) 0)) =
   map Inr (filter (published ignorePublic) (pairs (sets s)))"
proof -
  let ?all = "pairs (sets s)"
  have "map (\<lambda>k. if k < length ?all then Some (?all ! k) else None)
          (publishedSlots ignorePublic ?all 0) =
        map Some (filter (published ignorePublic) ?all)"
    by (rule publishedSlots_nth) simp
  then have "map ((\<lambda>v. case v of None \<Rightarrow> Inl DanglingPointer | Some p \<Rightarrow> Inr p)
                    \<circ> (\<lambda>k. if k < length ?all then Some (?all ! k) else None))
               (publishedSlots ignorePublic ?all 0) =
             map ((\<lambda>v. case v of None \<Rightarrow> Inl DanglingPointer | Some p \<Rightarrow> Inr p) \<circ> Some)
               (filter (published ignorePublic) ?all)"
    by (metis map_map)
  moreover have
    "(\<lambda>v. case v of None \<Rightarrow> Inl DanglingPointer | Some p \<Rightarrow> Inr p)
       \<circ> (\<lambda>k. if k < length ?all then Some (?all ! k) else None) = deref sets \<circ> Ptr s"
    by (rule ext) (simp add: deref_def)
  moreover have
    "(\<lambda>v. case v of None \<Rightarrow> Inl DanglingPointer | Some p \<Rightarrow> Inr p) \<circ> Some =
     (Inr :: IndexPair \<Rightarrow> fault + IndexPair)"
    by (rule ext) simp
  ultimately show ?thesis by simp
qed

lemma packEntries_result:
  assumes "pos = length p_out"
    and "n = length (filter (published ignorePublic) (pairs (sets s)))"
  shows "\<exists>prs. packEntries cfg ignorePublic sets s p_out pos n =
           Inr (prs, p_out @ map PairItem (filter (published ignorePublic) (pairs (sets s))),
                pos + n)
         \<and> map (deref sets) prs = map Inr (filter (published ignorePublic) (pairs (sets s)))"
proof -
  let ?prs = "map (Ptr s) (publishedSlots ignorePublic (pairs (sets s)) 0)"
  have len: "length ?prs = n"
    using publishedSlots_deref[of sets s ignorePublic] assms(2)
    by (metis length_map)
  have "packEntries cfg ignorePublic sets s p_out pos n =
          Inr (?prs, p_out @ map PairItem (filter (published ignorePublic) (pairs (sets s))),
               pos + n)"
    using packEntries_loop_result[of ignorePublic s "pairs (sets s)" 0 "[]" p_out] len
      assms
    by (simp add: packEntries_def)
  with publishedSlots_deref[of sets s ignorePublic] show ?thesis by blast
qed

lemma pairAt_resolved:
  "map (deref sets) locals = map Inr ls \<Longrightarrow> k < length ls \<Longrightarrow>
   pairAt sets locals k = Inr (ls ! k)"
proof -
  assume a: "map (deref sets) locals = map Inr ls" and k: "k < length ls"
  from a have len: "length locals = length ls" by (metis length_map)
  from a k len have "deref sets (locals ! k) = Inr (ls ! k)"
    by (metis nth_map)
  with k len show ?thesis by (simp add: pairAt_def ptrAt_def)
qed

lemma unpack_pair_at:
  "\<forall>j<length rs. base + j < length p_in \<and> p_in ! (base + j) = PairItem (rs ! j) \<Longrightarrow>
   j < length rs \<Longrightarrow> MPI_Unpack_pair p_in (base + j) = Inr (rs ! j, Suc (base + j))"
  by (simp add: MPI_Unpack_pair_def MPI_Unpack_def)

lemma ascending_le:
  "ascending xs \<Longrightarrow> i \<le> j \<Longrightarrow> j < length xs \<Longrightarrow> global (xs ! i) \<le> global (xs ! j)"
proof -
  assume a: "ascending xs" and ij: "i \<le> j" and j: "j < length xs"
  show ?thesis
  proof (cases "i = j")
    case True then show ?thesis by simp
  next
    case False
    with ij have "i < j" by simp
    moreover from a have "sorted_wrt (\<lambda>x y. global x < global y) xs"
      by (simp add: ascending_def sorted_wrt_map)
    ultimately have "global (xs ! i) < global (xs ! j)"
      using j by (rule_tac sorted_wrt_nth_less)
    then show ?thesis by simp
  qed
qed

lemma unpackIndices_loop_join:
  assumes loc: "map (deref sets) locals = map Inr ls"
    and buf: "\<forall>j<length rs. base + j < length p_in \<and> p_in ! (base + j) = PairItem (rs ! j)"
    and als: "ascending ls" and ars: "ascending rs"
  shows "n_in < length rs \<Longrightarrow> index = rs ! n_in \<Longrightarrow> pos = base + Suc n_in \<Longrightarrow>
     \<exists>remote1 n1 pos1.
       unpackIndices_loop sets locals (length ls) p_in (length rs) remote index n_in
         localIndex pos = Inr (remote1, n1, pos1)
       \<and> (if n1 < length rs then pos1 = base + Suc n1 else n1 = length rs \<and> pos1 = base + n1)
       \<and> (remote \<noteq> []
            \<or> (\<exists>j k. n_in \<le> j \<and> j < length rs \<and> localIndex \<le> k \<and> k < length ls
                    \<and> global (rs ! j) = global (ls ! k))
          \<longrightarrow> remote1 \<noteq> [])"
proof (induction "(length ls - localIndex) + (length rs - n_in)"
    arbitrary: remote index n_in localIndex pos rule: less_induct)
  case less
  note unfold = unpackIndices_loop.simps
    [of sets locals "length ls" p_in "length rs" remote index n_in localIndex pos]
  show ?case
  proof (cases "localIndex < length ls")
    case False
    then have "unpackIndices_loop sets locals (length ls) p_in (length rs) remote index n_in
                 localIndex pos = Inr (remote, n_in, pos)"
      by (subst unfold) simp
    moreover have "\<not> (\<exists>j k. n_in \<le> j \<and> j < length rs \<and> localIndex \<le> k \<and> k < length ls
                        \<and> global (rs ! j) = global (ls ! k))"
      using False by auto
    ultimately show ?thesis using less.prems by auto
  next
    case True
    have lp: "pairAt sets locals localIndex = Inr (ls ! localIndex)"
      by (rule pairAt_resolved[OF loc True])
    let ?pushed = "remote @ [RemoteIndex_attr_local (attribute (local index))
                               (locals ! localIndex)]"
    consider (eq) "global (ls ! localIndex) = global index"
      | (lt) "global (ls ! localIndex) < global index"
      | (gt) "global index < global (ls ! localIndex)"
      by linarith
    then show ?thesis
    proof cases
      case eq
      show ?thesis
      proof (cases "Suc n_in < length rs")
        case more: True
        have un: "MPI_Unpack_pair p_in pos = Inr (rs ! Suc n_in, Suc pos)"
          using unpack_pair_at[OF buf more] less.prems(3) by simp
        have step:
          "unpackIndices_loop sets locals (length ls) p_in (length rs) remote index n_in
             localIndex pos =
           unpackIndices_loop sets locals (length ls) p_in (length rs) ?pushed
             (rs ! Suc n_in) (Suc n_in) (Suc localIndex) (Suc pos)"
          using True lp eq more un by (subst unfold) simp
        have "length ls - Suc localIndex + (length rs - Suc n_in)
                < length ls - localIndex + (length rs - n_in)"
          using True more by simp
        from less.hyps[OF this more refl, of "Suc pos" ?pushed] less.prems(3)
        obtain remote1 n1 pos1 where
          "unpackIndices_loop sets locals (length ls) p_in (length rs) ?pushed
             (rs ! Suc n_in) (Suc n_in) (Suc localIndex) (Suc pos) = Inr (remote1, n1, pos1)"
          "if n1 < length rs then pos1 = base + Suc n1 else n1 = length rs \<and> pos1 = base + n1"
          "remote1 \<noteq> []"
          by auto
        with step show ?thesis by auto
      next
        case last: False
        have "unpackIndices_loop sets locals (length ls) p_in (length rs) remote index n_in
                localIndex pos = Inr (?pushed, Suc n_in, pos)"
          using True lp eq last by (subst unfold) simp
        moreover have "Suc n_in = length rs" using last less.prems(1) by simp
        ultimately show ?thesis using less.prems(3) by auto
      qed
    next
      case lt
      have step:
        "unpackIndices_loop sets locals (length ls) p_in (length rs) remote index n_in
           localIndex pos =
         unpackIndices_loop sets locals (length ls) p_in (length rs) remote index n_in
           (Suc localIndex) pos"
        using True lp lt by (subst unfold) simp
      have "length ls - Suc localIndex + (length rs - n_in)
              < length ls - localIndex + (length rs - n_in)"
        using True less.prems(1) by simp
      from less.hyps[OF this less.prems(1) less.prems(2) less.prems(3), of remote]
      obtain remote1 n1 pos1 where r:
        "unpackIndices_loop sets locals (length ls) p_in (length rs) remote index n_in
           (Suc localIndex) pos = Inr (remote1, n1, pos1)"
        "if n1 < length rs then pos1 = base + Suc n1 else n1 = length rs \<and> pos1 = base + n1"
        "remote \<noteq> []
           \<or> (\<exists>j k. n_in \<le> j \<and> j < length rs \<and> Suc localIndex \<le> k \<and> k < length ls
                   \<and> global (rs ! j) = global (ls ! k))
         \<longrightarrow> remote1 \<noteq> []"
        by blast
      have "remote1 \<noteq> []"
        if "\<exists>j k. n_in \<le> j \<and> j < length rs \<and> localIndex \<le> k \<and> k < length ls
                  \<and> global (rs ! j) = global (ls ! k)"
      proof -
        from that obtain j k where jk: "n_in \<le> j" "j < length rs" "localIndex \<le> k"
          "k < length ls" "global (rs ! j) = global (ls ! k)" by blast
        have "global (rs ! n_in) \<le> global (rs ! j)" by (rule ascending_le[OF ars jk(1) jk(2)])
        with lt less.prems(2) jk(5) have "k \<noteq> localIndex" by auto
        with jk(3) have "Suc localIndex \<le> k" by simp
        with jk r(3) show ?thesis by blast
      qed
      with r step show ?thesis by auto
    next
      case gt
      have no_match_here:
        "Suc n_in \<le> j"
        if "n_in \<le> j" "j < length rs" "localIndex \<le> k" "k < length ls"
          "global (rs ! j) = global (ls ! k)" for j k
      proof -
        have "global (ls ! localIndex) \<le> global (ls ! k)"
          by (rule ascending_le[OF als that(3) that(4)])
        with gt less.prems(2) that(5) have "j \<noteq> n_in" by auto
        with that(1) show ?thesis by simp
      qed
      show ?thesis
      proof (cases "Suc n_in < length rs")
        case more: True
        have un: "MPI_Unpack_pair p_in pos = Inr (rs ! Suc n_in, Suc pos)"
          using unpack_pair_at[OF buf more] less.prems(3) by simp
        have step:
          "unpackIndices_loop sets locals (length ls) p_in (length rs) remote index n_in
             localIndex pos =
           unpackIndices_loop sets locals (length ls) p_in (length rs) remote
             (rs ! Suc n_in) (Suc n_in) localIndex (Suc pos)"
          using True lp gt more un by (subst unfold) simp
        have "length ls - localIndex + (length rs - Suc n_in)
                < length ls - localIndex + (length rs - n_in)"
          using True more by simp
        moreover have "Suc pos = base + Suc (Suc n_in)" using less.prems(3) by simp
        ultimately obtain remote1 n1 pos1 where r:
          "unpackIndices_loop sets locals (length ls) p_in (length rs) remote
             (rs ! Suc n_in) (Suc n_in) localIndex (Suc pos) = Inr (remote1, n1, pos1)"
          "if n1 < length rs then pos1 = base + Suc n1 else n1 = length rs \<and> pos1 = base + n1"
          "remote \<noteq> []
             \<or> (\<exists>j k. Suc n_in \<le> j \<and> j < length rs \<and> localIndex \<le> k \<and> k < length ls
                     \<and> global (rs ! j) = global (ls ! k))
           \<longrightarrow> remote1 \<noteq> []"
          using less.hyps[OF _ more refl, of localIndex "Suc pos" remote] by blast
        have "remote1 \<noteq> []"
          if "\<exists>j k. n_in \<le> j \<and> j < length rs \<and> localIndex \<le> k \<and> k < length ls
                    \<and> global (rs ! j) = global (ls ! k)"
          using that no_match_here r(3) by blast
        with r step show ?thesis by auto
      next
        case last: False
        have "unpackIndices_loop sets locals (length ls) p_in (length rs) remote index n_in
                localIndex pos = Inr (remote, Suc n_in, pos)"
          using True lp gt last by (subst unfold) simp
        moreover have "Suc n_in = length rs" using last less.prems(1) by simp
        moreover have "\<not> (\<exists>j k. n_in \<le> j \<and> j < length rs \<and> localIndex \<le> k \<and> k < length ls
                        \<and> global (rs ! j) = global (ls ! k))"
          using no_match_here \<open>Suc n_in = length rs\<close> by fastforce
        ultimately show ?thesis using less.prems(3) by auto
      qed
    qed
  qed
qed

lemma unpackIndices_rest_end:
  assumes buf: "\<forall>j<length rs. base + j < length p_in \<and> p_in ! (base + j) = PairItem (rs ! j)"
  shows "(if n1 < length rs then pos1 = base + Suc n1 else n1 = length rs \<and> pos1 = base + n1)
         \<Longrightarrow> unpackIndices_rest p_in (length rs) n1 pos1 = Inr (base + length rs)"
proof (induction "length rs - n1" arbitrary: n1 pos1 rule: less_induct)
  case less
  show ?case
  proof (cases "Suc n1 < length rs")
    case True
    have un: "MPI_Unpack_pair p_in pos1 = Inr (rs ! Suc n1, Suc pos1)"
      using unpack_pair_at[OF buf True] less.prems True by simp
    have "unpackIndices_rest p_in (length rs) n1 pos1 =
          unpackIndices_rest p_in (length rs) (Suc n1) (Suc pos1)"
      using True un by (subst unpackIndices_rest.simps) simp
    moreover have "length rs - Suc n1 < length rs - n1" using True by simp
    moreover have "if Suc n1 < length rs then Suc pos1 = base + Suc (Suc n1)
                   else Suc n1 = length rs \<and> Suc pos1 = base + Suc n1"
      using less.prems True by simp
    ultimately show ?thesis using less.hyps[of "Suc n1" "Suc pos1"] by simp
  next
    case False
    then have "unpackIndices_rest p_in (length rs) n1 pos1 = Inr pos1"
      by (subst unpackIndices_rest.simps) simp
    moreover have "pos1 = base + length rs" using less.prems False
      by (auto split: if_splits)
    ultimately show ?thesis by simp
  qed
qed

lemma unpackIndices_join:
  assumes loc: "map (deref sets) locals = map Inr ls"
    and buf: "\<forall>j<length rs. base + j < length p_in \<and> p_in ! (base + j) = PairItem (rs ! j)"
    and als: "ascending ls" and ars: "ascending rs"
  shows "\<exists>remote1.
           unpackIndices sets [] (length rs) locals (length ls) p_in base =
             Inr (remote1, base + length rs)
           \<and> ((\<exists>x\<in>set rs. \<exists>y\<in>set ls. global x = global y) \<longrightarrow> remote1 \<noteq> [])"
proof (cases "length rs = 0")
  case True
  then show ?thesis by (simp add: unpackIndices_def)
next
  case False
  then have pos: "0 < length rs" by simp
  have un: "MPI_Unpack_pair p_in base = Inr (rs ! 0, Suc base)"
    using unpack_pair_at[OF buf pos] by simp
  from unpackIndices_loop_join[OF loc buf als ars pos refl, of "base + Suc 0" "[]" 0]
  obtain remote1 n1 pos1 where r:
    "unpackIndices_loop sets locals (length ls) p_in (length rs) [] (rs ! 0) 0 0 (Suc base) =
       Inr (remote1, n1, pos1)"
    "if n1 < length rs then pos1 = base + Suc n1 else n1 = length rs \<and> pos1 = base + n1"
    "(\<exists>j k. 0 \<le> j \<and> j < length rs \<and> 0 \<le> k \<and> k < length ls
          \<and> global (rs ! j) = global (ls ! k)) \<longrightarrow> remote1 \<noteq> []"
    by auto
  have e: "unpackIndices sets [] (length rs) locals (length ls) p_in base =
             Inr (remote1, base + length rs)"
    using False un r(1) unpackIndices_rest_end[OF buf r(2)]
    by (simp add: unpackIndices_def)
  have "remote1 \<noteq> []" if "\<exists>x\<in>set rs. \<exists>y\<in>set ls. global x = global y"
  proof -
    from that obtain j k where "j < length rs" "k < length ls"
      "global (rs ! j) = global (ls ! k)"
      by (metis in_set_conv_nth)
    with r(3) show ?thesis by blast
  qed
  with e show ?thesis by blast
qed

lemma ascending_filter: "ascending xs \<Longrightarrow> ascending (filter P xs)"
  by (simp add: ascending_def sorted_wrt_map sorted_wrt_filter)

lemma map_insert_keys: "fst ` set (map_insert k v m) = insert k (fst ` set m)"
proof (induction m)
  case Nil
  show ?case by simp
next
  case (Cons e m)
  obtain k' v' where e: "e = (k', v')" by (cases e)
  consider (before) "k < k'" | (same) "k = k'" | (after) "k' < k" by linarith
  then show ?case
  proof cases
    case before
    then show ?thesis by (simp add: e insert_commute)
  next
    case same
    then show ?thesis by (simp add: e)
  next
    case after
    then show ?thesis using Cons.IH by (simp add: e insert_commute)
  qed
qed

lemma packFirst_two_sets:
  assumes two: "sendTwo loc"
    and sp: "sourcePublish loc = length (filter (published ignorePublic) (pairs (sets (source' r))))"
    and dp: "destPublish loc = length (filter (published ignorePublic) (pairs (sets (target' r))))"
    and empty: "getBuffer out st = []" "position st = 0"
  shows "\<exists>sps dps. packFirst cfg ignorePublic sets r loc out st =
           Inr ((setBuffer out
                   ([CharItem 1, IntItem (sourcePublish loc), IntItem (destPublish loc)]
                    @ map PairItem (filter (published ignorePublic) (pairs (sets (source' r))))
                    @ map PairItem (filter (published ignorePublic) (pairs (sets (target' r)))))
                   st)
                \<lparr>position := 3 + sourcePublish loc + destPublish loc,
                 sourcePairs := sps, destPairs := dps\<rparr>)
         \<and> map (deref sets) sps =
             map Inr (filter (published ignorePublic) (pairs (sets (source' r))))
         \<and> map (deref sets) dps =
             map Inr (filter (published ignorePublic) (pairs (sets (target' r))))"
proof -
  let ?fs = "filter (published ignorePublic) (pairs (sets (source' r)))"
  let ?fd = "filter (published ignorePublic) (pairs (sets (target' r)))"
  let ?hdr = "[CharItem 1, IntItem (sourcePublish loc), IntItem (destPublish loc)]"
  have h3: "MPI_Pack (IntItem (destPublish loc))
              (fst (MPI_Pack (IntItem (sourcePublish loc))
                 (fst (MPI_Pack (CharItem (if sendTwo loc then 1 else 0)) (getBuffer out st)
                    (position st)))
                 (snd (MPI_Pack (CharItem (if sendTwo loc then 1 else 0)) (getBuffer out st)
                    (position st)))))
              (snd (MPI_Pack (IntItem (sourcePublish loc))
                 (fst (MPI_Pack (CharItem (if sendTwo loc then 1 else 0)) (getBuffer out st)
                    (position st)))
                 (snd (MPI_Pack (CharItem (if sendTwo loc then 1 else 0)) (getBuffer out st)
                    (position st))))) = (?hdr, 3)"
    using two empty by (simp add: MPI_Pack_def)
  have "3 = length ?hdr" by simp
  from packEntries_result
         [where pos = 3 and p_out = ?hdr and n = "sourcePublish loc" and s = "source' r"
            and sets = sets and ignorePublic = ignorePublic and cfg = cfg, OF this sp]
  obtain sps where
    s: "packEntries cfg ignorePublic sets (source' r) ?hdr 3 (sourcePublish loc) =
          Inr (sps, ?hdr @ map PairItem ?fs, 3 + sourcePublish loc)"
       "map (deref sets) sps = map Inr ?fs"
    by blast
  have "3 + sourcePublish loc = length (?hdr @ map PairItem ?fs)" using sp by simp
  from packEntries_result
         [where pos = "3 + sourcePublish loc" and p_out = "?hdr @ map PairItem ?fs"
            and n = "destPublish loc" and s = "target' r" and sets = sets
            and ignorePublic = ignorePublic and cfg = cfg, OF this dp]
  obtain dps where
    d: "packEntries cfg ignorePublic sets (target' r) (?hdr @ map PairItem ?fs)
          (3 + sourcePublish loc) (destPublish loc) =
          Inr (dps, (?hdr @ map PairItem ?fs) @ map PairItem ?fd,
               3 + sourcePublish loc + destPublish loc)"
       "map (deref sets) dps = map Inr ?fd"
    by blast
  have "packFirst cfg ignorePublic sets r loc out st =
          Inr ((setBuffer out (?hdr @ map PairItem ?fs @ map PairItem ?fd) st)
                 \<lparr>position := 3 + sourcePublish loc + destPublish loc,
                  sourcePairs := sps, destPairs := dps\<rparr>)"
    unfolding packFirst_def Let_def h3 using two s(1) d(1) by simp
  with s(2) d(2) show ?thesis by blast
qed

lemma processMessage_own:
  assumes two: "sendTwo loc"
    and sp: "sourcePublish loc = length fs" and dp: "destPublish loc = length fd"
    and buf: "getBuffer (proc mod 2) st =
                [CharItem 1, IntItem (length fs), IntItem (length fd)]
                @ map PairItem fs @ map PairItem fd"
    and sps: "map (deref sets) (sourcePairs st) = map Inr fs"
    and dps: "map (deref sets) (destPairs st) = map Inr fd"
    and asc: "ascending fs" "ascending fd"
    and shared: "\<exists>x\<in>set fs. \<exists>y\<in>set fd. global x = global y"
  shows "\<exists>st1 v. processMessage sets loc proc st = Inr st1
           \<and> ringMap st1 = map_insert ((rank loc + procs loc - proc) mod procs loc) v
                              (ringMap st)"
proof -
  let ?p_in = "[CharItem 1, IntItem (length fs), IntItem (length fd)]
               @ map PairItem fs @ map PairItem fd"
  have hdr: "unpackHeader ?p_in = Inr (1, length fs, length fd, 3)"
    by (simp add: unpackHeader_def MPI_Unpack_char_def MPI_Unpack_int_def MPI_Unpack_def)
  have b1: "\<forall>j<length fs. 3 + j < length ?p_in \<and> ?p_in ! (3 + j) = PairItem (fs ! j)"
    by (auto simp: nth_append)
  have b2: "\<forall>j<length fd. (3 + length fs) + j < length ?p_in
              \<and> ?p_in ! ((3 + length fs) + j) = PairItem (fd ! j)"
    by (auto simp: nth_append)
  from unpackIndices_join[OF dps b1 asc(2) asc(1)] shared obtain receiveList where
    r: "unpackIndices sets [] (length fs) (destPairs st) (length fd) ?p_in 3 =
          Inr (receiveList, 3 + length fs)" "receiveList \<noteq> []"
    by blast
  from unpackIndices_join[OF sps b2 asc(1) asc(2)] obtain sendList where
    s: "unpackIndices sets [] (length fd) (sourcePairs st) (length fs) ?p_in (3 + length fs) =
          Inr (sendList, 3 + length fs + length fd)"
    by blast
  have "unpackLists sets loc st ?p_in 1 (length fs) (length fd) 3
          (fst (new_list (ringHeap st))) (snd (new_list (ringHeap st))) =
        Inr (fst (new_list (snd (new_list (ringHeap st)))), sendList, receiveList,
             3 + length fs + length fd, snd (new_list (snd (new_list (ringHeap st)))))"
    using two sp dp r(1) s by (simp add: unpackLists_def)
  then have "processMessage sets loc proc st =
          Inr (st\<lparr>ringMap := map_insert ((rank loc + procs loc - proc) mod procs loc)
                               (fst (new_list (snd (new_list (ringHeap st)))),
                                fst (new_list (ringHeap st)))
                               (ringMap st),
                  ringHeap := (snd (new_list (snd (new_list (ringHeap st)))))
                    \<lparr>cells := (cells (snd (new_list (snd (new_list (ringHeap st))))))
                       (fst (new_list (ringHeap st)) \<mapsto> receiveList,
                        fst (new_list (snd (new_list (ringHeap st)))) \<mapsto> sendList)\<rparr>,
                  position := 3 + length fs + length fd\<rparr>)"
    using hdr buf r(2) by (simp add: processMessage_def Let_def)
  then show ?thesis by fastforce
qed

lemma ringMap_MPI_Sendrecv [simp]: "ringMap (MPI_Sendrecv loc out inb st) = ringMap st"
  by (simp add: MPI_Sendrecv_def Let_def)

lemma ringMap_MPI_Ssend [simp]: "ringMap (MPI_Ssend loc out st) = ringMap st"
  by (simp add: MPI_Ssend_def)

lemma ringMap_MPI_Recv: "MPI_Recv loc inb st = Inr st1 \<Longrightarrow> ringMap st1 = ringMap st"
  by (auto simp: MPI_Recv_def split: list.splits)

lemma processMessage_ringMap:
  assumes "processMessage sets loc proc st = Inr st1"
  shows "ringMap st1 = ringMap st \<or> (\<exists>k v. ringMap st1 = map_insert k v (ringMap st))"
proof -
  let ?p_in = "getBuffer (proc mod 2) st"
  from assms obtain t ns nd p0 where h: "unpackHeader ?p_in = Inr (t, ns, nd, p0)"
    by (cases "unpackHeader ?p_in") (auto simp: processMessage_def)
  let ?u = "unpackLists sets loc st ?p_in t ns nd p0 (fst (new_list (ringHeap st)))
              (snd (new_list (ringHeap st)))"
  from assms h obtain send sl rl p1 h2 where u: "?u = Inr (send, sl, rl, p1, h2)"
    by (cases ?u) (auto simp: processMessage_def Let_def)
  show ?thesis
  proof (cases "rl = [] \<and> sl = []")
    case True
    with assms h u have "ringMap st1 = ringMap st"
      by (auto simp: processMessage_def Let_def split: sum.splits)
    then show ?thesis by simp
  next
    case False
    with assms h u have
      "ringMap st1 = map_insert ((rank loc + procs loc - proc) mod procs loc)
                       (send, fst (new_list (ringHeap st))) (ringMap st)"
      by (auto simp: processMessage_def Let_def)
    then show ?thesis by blast
  qed
qed

lemma processMessage_keys:
  assumes "processMessage sets loc proc st = Inr st1"
  shows "fst ` set (ringMap st) \<subseteq> fst ` set (ringMap st1)"
proof -
  from processMessage_ringMap[OF assms] show ?thesis
  proof
    assume "ringMap st1 = ringMap st"
    then show ?thesis by simp
  next
    assume "\<exists>k v. ringMap st1 = map_insert k v (ringMap st)"
    then obtain k v where "ringMap st1 = map_insert k v (ringMap st)" by blast
    then have "fst ` set (ringMap st1) = insert k (fst ` set (ringMap st))"
      by (simp only: map_insert_keys)
    then show ?thesis by blast
  qed
qed

lemma hop_keys:
  assumes "hop cfg ignorePublic sets r loc proc st = Inr st1"
  shows "fst ` set (ringMap st) \<subseteq> fst ` set (ringMap st1)"
proof -
  let ?out = "if proc = 0 \<and> (0 < procs loc \<or> sendTwo loc) \<and> \<not> sendTwo loc then 0
              else 1 - proc mod 2"
  let ?packed = "if proc = 0 \<and> (0 < procs loc \<or> sendTwo loc)
                 then packFirst cfg ignorePublic sets r loc ?out st else Inr st"
  from assms obtain sta where sta: "?packed = Inr sta"
    by (cases ?packed) (simp_all add: hop_def Let_def)
  then have m: "ringMap sta = ringMap st"
    by (auto split: if_splits dest: packFirst_keeps)
  have rest:
    "(if proc = 0 then
        (if sendTwo loc
         then processMessage sets loc proc (MPI_Sendrecv loc ?out (proc mod 2) sta)
         else Inr sta)
      else if rank loc mod 2 = 0 then
        (case MPI_Recv loc (proc mod 2) (MPI_Ssend loc ?out sta) of
           Inl f \<Rightarrow> Inl f
         | Inr st2 \<Rightarrow> processMessage sets loc proc st2)
      else
        (case MPI_Recv loc (proc mod 2) sta of
           Inl f \<Rightarrow> Inl f
         | Inr st2 \<Rightarrow> processMessage sets loc proc (MPI_Ssend loc ?out st2))) = Inr st1"
    using assms sta by (simp add: hop_def Let_def)
  consider (first_two) "proc = 0" "sendTwo loc"
    | (first_one) "proc = 0" "\<not> sendTwo loc"
    | (even) "proc \<noteq> 0" "rank loc mod 2 = 0"
    | (odd) "proc \<noteq> 0" "rank loc mod 2 \<noteq> 0"
    by blast
  then show ?thesis
  proof cases
    case first_two
    with rest have
      "processMessage sets loc proc (MPI_Sendrecv loc ?out (proc mod 2) sta) = Inr st1"
      by simp
    from processMessage_keys[OF this] m show ?thesis by simp
  next
    case first_one
    with rest m show ?thesis by simp
  next
    case even
    with rest obtain st2 where
      r: "MPI_Recv loc (proc mod 2) (MPI_Ssend loc ?out sta) = Inr st2"
      and p: "processMessage sets loc proc st2 = Inr st1"
      by (cases "MPI_Recv loc (proc mod 2) (MPI_Ssend loc ?out sta)") simp_all
    from ringMap_MPI_Recv[OF r] processMessage_keys[OF p] m show ?thesis by simp
  next
    case odd
    with rest obtain st2 where
      r: "MPI_Recv loc (proc mod 2) sta = Inr st2"
      and p: "processMessage sets loc proc (MPI_Ssend loc ?out st2) = Inr st1"
      by (cases "MPI_Recv loc (proc mod 2) sta") simp_all
    from ringMap_MPI_Recv[OF r] processMessage_keys[OF p] m show ?thesis by simp
  qed
qed

lemma ring_keys:
  "ring cfg ignorePublic sets r loc proc st = Inr st1 \<Longrightarrow>
   fst ` set (ringMap st) \<subseteq> fst ` set (ringMap st1)"
proof (induction cfg ignorePublic sets r loc proc st rule: ring.induct)
  case (1 cfg ignorePublic sets r loc proc st)
  show ?case
  proof (cases "proc < procs loc")
    case False
    with "1.prems" show ?thesis by (subst (asm) ring.simps) simp
  next
    case True
    with "1.prems" obtain st2 where
      h: "hop cfg ignorePublic sets r loc proc st = Inr st2"
      and r: "ring cfg ignorePublic sets r loc (Suc proc) st2 = Inr st1"
      by (subst (asm) ring.simps) (auto split: sum.splits)
    from "1.IH"[OF True h r] hop_keys[OF h] show ?thesis by auto
  qed
qed

section \<open>A rebuild returns\<close>

lemma pairs_of_items:
  "list_all isPair xs \<Longrightarrow> \<exists>ps. xs = map PairItem ps"
proof (induction xs)
  case Nil
  show ?case by simp
next
  case (Cons x xs)
  then obtain p where x: "x = PairItem p" by (cases x) auto
  from Cons obtain ps where xs: "xs = map PairItem ps" by auto
  show ?case by (rule exI[of _ "p # ps"]) (simp add: x xs)
qed

lemma unpackIndices_loop_returns:
  assumes loc: "map (deref sets) locals = map Inr ls"
    and buf: "\<forall>j<length rs. base + j < length p_in \<and> p_in ! (base + j) = PairItem (rs ! j)"
  shows "n_in < length rs \<Longrightarrow> pos = base + Suc n_in \<Longrightarrow>
     \<exists>remote1 n1 pos1.
       unpackIndices_loop sets locals (length ls) p_in (length rs) remote index n_in
         localIndex pos = Inr (remote1, n1, pos1)
       \<and> (if n1 < length rs then pos1 = base + Suc n1 else n1 = length rs \<and> pos1 = base + n1)"
proof (induction "(length ls - localIndex) + (length rs - n_in)"
    arbitrary: remote index n_in localIndex pos rule: less_induct)
  case less
  note unfold = unpackIndices_loop.simps
    [of sets locals "length ls" p_in "length rs" remote index n_in localIndex pos]
  show ?case
  proof (cases "localIndex < length ls")
    case False
    then have "unpackIndices_loop sets locals (length ls) p_in (length rs) remote index n_in
                 localIndex pos = Inr (remote, n_in, pos)"
      by (subst unfold) simp
    then show ?thesis using less.prems by auto
  next
    case True
    have lp: "pairAt sets locals localIndex = Inr (ls ! localIndex)"
      by (rule pairAt_resolved[OF loc True])
    let ?pushed = "remote @ [RemoteIndex_attr_local (attribute (local index))
                               (locals ! localIndex)]"
    consider (eq) "global (ls ! localIndex) = global index"
      | (lt) "global (ls ! localIndex) < global index"
      | (gt) "global index < global (ls ! localIndex)"
      by linarith
    then show ?thesis
    proof cases
      case eq
      show ?thesis
      proof (cases "Suc n_in < length rs")
        case more: True
        have un: "MPI_Unpack_pair p_in pos = Inr (rs ! Suc n_in, Suc pos)"
          using unpack_pair_at[OF buf more] less.prems(2) by simp
        have step:
          "unpackIndices_loop sets locals (length ls) p_in (length rs) remote index n_in
             localIndex pos =
           unpackIndices_loop sets locals (length ls) p_in (length rs) ?pushed
             (rs ! Suc n_in) (Suc n_in) (Suc localIndex) (Suc pos)"
          using True lp eq more un by (subst unfold) simp
        have "length ls - Suc localIndex + (length rs - Suc n_in)
                < length ls - localIndex + (length rs - n_in)"
          using True more by simp
        moreover have "Suc pos = base + Suc (Suc n_in)" using less.prems(2) by simp
        ultimately show ?thesis
          using less.hyps[OF _ more, of "Suc localIndex" "Suc pos" ?pushed "rs ! Suc n_in"] step
          by simp
      next
        case last: False
        have "unpackIndices_loop sets locals (length ls) p_in (length rs) remote index n_in
                localIndex pos = Inr (?pushed, Suc n_in, pos)"
          using True lp eq last by (subst unfold) simp
        moreover have "Suc n_in = length rs" using last less.prems(1) by simp
        ultimately show ?thesis using less.prems(2) by auto
      qed
    next
      case lt
      have step:
        "unpackIndices_loop sets locals (length ls) p_in (length rs) remote index n_in
           localIndex pos =
         unpackIndices_loop sets locals (length ls) p_in (length rs) remote index n_in
           (Suc localIndex) pos"
        using True lp lt by (subst unfold) simp
      have "length ls - Suc localIndex + (length rs - n_in)
              < length ls - localIndex + (length rs - n_in)"
        using True less.prems(1) by simp
      from less.hyps[OF this less.prems(1) less.prems(2), of remote index] step
      show ?thesis by simp
    next
      case gt
      show ?thesis
      proof (cases "Suc n_in < length rs")
        case more: True
        have un: "MPI_Unpack_pair p_in pos = Inr (rs ! Suc n_in, Suc pos)"
          using unpack_pair_at[OF buf more] less.prems(2) by simp
        have step:
          "unpackIndices_loop sets locals (length ls) p_in (length rs) remote index n_in
             localIndex pos =
           unpackIndices_loop sets locals (length ls) p_in (length rs) remote
             (rs ! Suc n_in) (Suc n_in) localIndex (Suc pos)"
          using True lp gt more un by (subst unfold) simp
        have "length ls - localIndex + (length rs - Suc n_in)
                < length ls - localIndex + (length rs - n_in)"
          using True more by simp
        moreover have "Suc pos = base + Suc (Suc n_in)" using less.prems(2) by simp
        ultimately show ?thesis
          using less.hyps[OF _ more, of localIndex "Suc pos" remote "rs ! Suc n_in"] step
          by simp
      next
        case last: False
        have "unpackIndices_loop sets locals (length ls) p_in (length rs) remote index n_in
                localIndex pos = Inr (remote, Suc n_in, pos)"
          using True lp gt last by (subst unfold) simp
        moreover have "Suc n_in = length rs" using last less.prems(1) by simp
        ultimately show ?thesis using less.prems(2) by auto
      qed
    qed
  qed
qed

lemma unpackIndices_returns:
  assumes loc: "map (deref sets) locals = map Inr ls"
    and buf: "\<forall>j<length rs. base + j < length p_in \<and> p_in ! (base + j) = PairItem (rs ! j)"
  shows "\<exists>remote1. unpackIndices sets remote (length rs) locals (length ls) p_in base =
           Inr (remote1, base + length rs)"
proof (cases "length rs = 0")
  case True
  then show ?thesis by (simp add: unpackIndices_def)
next
  case False
  then have pos: "0 < length rs" by simp
  have un: "MPI_Unpack_pair p_in base = Inr (rs ! 0, Suc base)"
    using unpack_pair_at[OF buf pos] by simp
  from unpackIndices_loop_returns[OF loc buf pos, of "Suc base" remote "rs ! 0" 0]
  obtain remote1 n1 pos1 where r:
    "unpackIndices_loop sets locals (length ls) p_in (length rs) remote (rs ! 0) 0 0
       (Suc base) = Inr (remote1, n1, pos1)"
    "if n1 < length rs then pos1 = base + Suc n1 else n1 = length rs \<and> pos1 = base + n1"
    by auto
  have "unpackIndices sets remote (length rs) locals (length ls) p_in base =
          Inr (remote1, base + length rs)"
    using False un r(1) unpackIndices_rest_end[OF buf r(2)]
    by (simp add: unpackIndices_def)
  then show ?thesis by blast
qed

lemma processMessage_returns:
  assumes sps: "map (deref sets) (sourcePairs st) = map Inr fs"
    and dps: "map (deref sets) (destPairs st) = map Inr fd"
    and sp: "sourcePublish loc = length fs"
    and dp: "sendTwo loc \<Longrightarrow> destPublish loc = length fd"
    and wf: "wellFormed (sendTwo loc) (getBuffer (proc mod 2) st)"
  shows "\<exists>st1. processMessage sets loc proc st = Inr st1
           \<and> sourcePairs st1 = sourcePairs st \<and> destPairs st1 = destPairs st
           \<and> ringNet st1 = ringNet st"
proof -
  from wf obtain t ns nd body where
    msg: "getBuffer (proc mod 2) st = CharItem t # IntItem ns # IntItem nd # body"
    and two: "\<not> (sendTwo loc \<and> t = 0)"
    and len: "announced t ns nd \<le> length body"
    and prs: "list_all isPair (take (announced t ns nd) body)"
    by (rule wellFormed.elims(2)) auto
  let ?p_in = "CharItem t # IntItem ns # IntItem nd # body"
  let ?n = "announced t ns nd"
  from pairs_of_items[OF prs] obtain ps where ps: "take ?n body = map PairItem ps" by blast
  from ps len have lps: "length ps = ?n"
    by (metis length_map length_take min.absorb2)
  have at: "body ! j = PairItem (ps ! j)" if "j < ?n" for j
  proof -
    from that have "body ! j = take ?n body ! j" by simp
    with ps that lps show ?thesis by simp
  qed
  have hdr: "unpackHeader ?p_in = Inr (t, ns, nd, 3)"
    by (simp add: unpackHeader_def MPI_Unpack_char_def MPI_Unpack_int_def MPI_Unpack_def)
  let ?h = "ringHeap st"
  show ?thesis
  proof (cases "t = 0")
    case True
    with two have one: "\<not> sendTwo loc" by simp
    from True lps have lns: "length ps = ns" by (simp add: announced_def)
    have b: "\<forall>j<length ps. 3 + j < length ?p_in \<and> ?p_in ! (3 + j) = PairItem (ps ! j)"
      using at len lps by (simp add: numeral_3_eq_3)
    from unpackIndices_returns[OF sps b, of "[]"] lns obtain rl where
      u: "unpackIndices sets [] ns (sourcePairs st) (length fs) ?p_in 3 = Inr (rl, 3 + ns)"
      by auto
    have ul: "unpackLists sets loc st ?p_in t ns nd 3 (fst (new_list ?h)) (snd (new_list ?h)) =
                Inr (fst (new_list ?h), rl, rl, 3 + ns, snd (new_list ?h))"
      using True one u sp by (simp add: unpackLists_def)
    show ?thesis
      by (auto simp: processMessage_def Let_def msg hdr ul deleteEmpty_def delete_list_def)
  next
    case False
    let ?rs = "take ns ps"
    let ?rd = "drop ns ps"
    from False lps have l: "length ps = ns + nd" by (simp add: announced_def)
    then have lrs: "length ?rs = ns" and lrd: "length ?rd = nd" by simp_all
    have b1: "\<forall>j<length ?rs. 3 + j < length ?p_in \<and> ?p_in ! (3 + j) = PairItem (?rs ! j)"
      using at len lps l by (simp add: numeral_3_eq_3)
    have b2: "\<forall>j<length ?rd. (3 + ns) + j < length ?p_in
                \<and> ?p_in ! ((3 + ns) + j) = PairItem (?rd ! j)"
    proof (intro allI impI)
      fix j
      assume "j < length ?rd"
      with lrd have j: "ns + j < ?n" using l lps by simp
      from at[OF j] have "body ! (ns + j) = PairItem (ps ! (ns + j))" .
      moreover have "?rd ! j = ps ! (ns + j)" using l by simp
      moreover have "ns + j < length body" using j len by simp
      ultimately show "(3 + ns) + j < length ?p_in
                       \<and> ?p_in ! ((3 + ns) + j) = PairItem (?rd ! j)"
        by (simp add: numeral_3_eq_3)
    qed
    have "\<exists>rl. (if sendTwo loc then
                   unpackIndices sets [] ns (destPairs st) (destPublish loc) ?p_in 3
                 else
                   unpackIndices sets [] ns (sourcePairs st) (sourcePublish loc) ?p_in 3) =
                Inr (rl, 3 + ns)"
    proof (cases "sendTwo loc")
      case True
      from unpackIndices_returns[OF dps b1, of "[]"] lrs dp[OF True] True show ?thesis
        by auto
    next
      case False
      from unpackIndices_returns[OF sps b1, of "[]"] lrs sp False show ?thesis
        by auto
    qed
    then obtain rl where
      u1: "(if sendTwo loc then
              unpackIndices sets [] ns (destPairs st) (destPublish loc) ?p_in 3
            else
              unpackIndices sets [] ns (sourcePairs st) (sourcePublish loc) ?p_in 3) =
           Inr (rl, 3 + ns)" by blast
    from unpackIndices_returns[OF sps b2, of "[]"] lrd sp obtain sl where
      u2: "unpackIndices sets [] nd (sourcePairs st) (sourcePublish loc) ?p_in (3 + ns) =
             Inr (sl, 3 + ns + nd)" by auto
    have ul: "unpackLists sets loc st ?p_in t ns nd 3 (fst (new_list ?h)) (snd (new_list ?h)) =
                Inr (fst (new_list (snd (new_list ?h))), sl, rl, 3 + ns + nd,
                     snd (new_list (snd (new_list ?h))))"
      using False u1 u2 unfolding unpackLists_def by simp
    let ?receive = "fst (new_list ?h)"
    let ?send = "fst (new_list (snd (new_list ?h)))"
    let ?h3 = "(snd (new_list (snd (new_list ?h))))
                 \<lparr>cells := (cells (snd (new_list (snd (new_list ?h)))))
                    (?receive \<mapsto> rl, ?send \<mapsto> sl)\<rparr>"
    have pm: "processMessage sets loc proc st =
                (if rl = [] \<and> sl = [] then
                   (case deleteEmpty ?send ?receive ?h3 of
                      Inl f \<Rightarrow> Inl f
                    | Inr h4 \<Rightarrow> Inr (st\<lparr>ringHeap := h4, position := 3 + ns + nd\<rparr>))
                 else
                   Inr (st\<lparr>ringMap := map_insert ((rank loc + procs loc - proc) mod procs loc)
                                        (?send, ?receive) (ringMap st),
                          ringHeap := ?h3, position := 3 + ns + nd\<rparr>))"
      by (simp add: processMessage_def Let_def msg hdr ul)
    have "\<exists>h4. deleteEmpty ?send ?receive ?h3 = Inr h4"
      by (simp add: deleteEmpty_def delete_list_def new_list_def)
    then obtain h4 where d: "deleteEmpty ?send ?receive ?h3 = Inr h4" by blast
    have "processMessage sets loc proc st =
            Inr (if rl = [] \<and> sl = [] then st\<lparr>ringHeap := h4, position := 3 + ns + nd\<rparr>
                 else st\<lparr>ringMap := map_insert ((rank loc + procs loc - proc) mod procs loc)
                                        (?send, ?receive) (ringMap st),
                          ringHeap := ?h3, position := 3 + ns + nd\<rparr>)"
      unfolding pm d by simp
    then show ?thesis by simp
  qed
qed

lemma MPI_Recv_returns:
  assumes "inbox (ringNet st) = msg # rest"
  shows "\<exists>st1. MPI_Recv loc inb st = Inr st1 \<and> getBuffer inb st1 = msg
           \<and> sourcePairs st1 = sourcePairs st \<and> destPairs st1 = destPairs st
           \<and> inbox (ringNet st1) = rest"
  using assms by (simp add: MPI_Recv_def setBuffer_def getBuffer_def)

lemma MPI_Ssend_keeps:
  "getBuffer inb (MPI_Ssend loc out st) = getBuffer inb st
   \<and> sourcePairs (MPI_Ssend loc out st) = sourcePairs st
   \<and> destPairs (MPI_Ssend loc out st) = destPairs st
   \<and> inbox (ringNet (MPI_Ssend loc out st)) = inbox (ringNet st)"
  by (simp add: MPI_Ssend_def getBuffer_def)

lemma hop_returns:
  assumes sps: "map (deref sets) (sourcePairs st) = map Inr fs"
    and dps: "map (deref sets) (destPairs st) = map Inr fd"
    and sp: "sourcePublish loc = length fs"
    and dp: "sendTwo loc \<Longrightarrow> destPublish loc = length fd"
    and inb: "inbox (ringNet st) = msg # rest"
    and wf: "wellFormed (sendTwo loc) msg"
    and proc: "0 < proc"
  shows "\<exists>st1. hop cfg ignorePublic sets r loc proc st = Inr st1
           \<and> sourcePairs st1 = sourcePairs st \<and> destPairs st1 = destPairs st
           \<and> inbox (ringNet st1) = rest"
proof (cases "rank loc mod 2 = 0")
  case True
  let ?sent = "MPI_Ssend loc (1 - proc mod 2) st"
  from inb have "inbox (ringNet ?sent) = msg # rest" by (simp add: MPI_Ssend_keeps)
  from MPI_Recv_returns[OF this, of loc "proc mod 2"] obtain st2 where
    rc: "MPI_Recv loc (proc mod 2) ?sent = Inr st2"
    and b: "getBuffer (proc mod 2) st2 = msg"
    and k: "sourcePairs st2 = sourcePairs st" "destPairs st2 = destPairs st"
    and i: "inbox (ringNet st2) = rest"
    by (auto simp: MPI_Ssend_keeps)
  from processMessage_returns[of sets st2 fs fd loc proc] sps dps sp dp wf b k
  obtain st1 where
    "processMessage sets loc proc st2 = Inr st1" "sourcePairs st1 = sourcePairs st2"
    "destPairs st1 = destPairs st2" "ringNet st1 = ringNet st2"
    by auto
  with rc k i True proc show ?thesis by (simp add: hop_def Let_def)
next
  case False
  from MPI_Recv_returns[OF inb, of loc "proc mod 2"] obtain st2 where
    rc: "MPI_Recv loc (proc mod 2) st = Inr st2"
    and b: "getBuffer (proc mod 2) st2 = msg"
    and k: "sourcePairs st2 = sourcePairs st" "destPairs st2 = destPairs st"
    and i: "inbox (ringNet st2) = rest"
    by auto
  let ?sent = "MPI_Ssend loc (1 - proc mod 2) st2"
  from processMessage_returns[of sets ?sent fs fd loc proc] sps dps sp dp wf b k
  obtain st1 where
    "processMessage sets loc proc ?sent = Inr st1" "sourcePairs st1 = sourcePairs ?sent"
    "destPairs st1 = destPairs ?sent" "ringNet st1 = ringNet ?sent"
    by (auto simp: MPI_Ssend_keeps)
  with rc k i False proc show ?thesis by (simp add: hop_def Let_def MPI_Ssend_keeps)
qed

lemma ring_returns:
  assumes sp: "sourcePublish loc = length fs"
    and dp: "sendTwo loc \<Longrightarrow> destPublish loc = length fd"
  shows "0 < proc \<Longrightarrow>
     map (deref sets) (sourcePairs st) = map Inr fs \<Longrightarrow>
     map (deref sets) (destPairs st) = map Inr fd \<Longrightarrow>
     procs loc - proc \<le> length (inbox (ringNet st)) \<Longrightarrow>
     list_all (wellFormed (sendTwo loc)) (take (procs loc - proc) (inbox (ringNet st))) \<Longrightarrow>
     \<exists>st1. ring cfg ignorePublic sets r loc proc st = Inr st1"
proof (induction "procs loc - proc" arbitrary: proc st rule: less_induct)
  case less
  show ?case
  proof (cases "proc < procs loc")
    case False
    then show ?thesis by (subst ring.simps) simp
  next
    case True
    then obtain k where k: "procs loc - proc = Suc k" "procs loc - Suc proc = k"
      by (metis Suc_diff_Suc)
    with less.prems(4) obtain msg rest where
      inb: "inbox (ringNet st) = msg # rest"
      by (cases "inbox (ringNet st)") auto
    from less.prems(5) k inb have wf: "wellFormed (sendTwo loc) msg"
      and wfs: "list_all (wellFormed (sendTwo loc)) (take k rest)"
      by simp_all
    from hop_returns[OF less.prems(2) less.prems(3) sp dp inb wf less.prems(1),
                     of cfg ignorePublic r]
    obtain st1 where
      h: "hop cfg ignorePublic sets r loc proc st = Inr st1"
      and keep: "sourcePairs st1 = sourcePairs st" "destPairs st1 = destPairs st"
      and i: "inbox (ringNet st1) = rest"
      by auto
    have "procs loc - Suc proc < procs loc - proc" using True by simp
    moreover have "0 < Suc proc" by simp
    moreover have "map (deref sets) (sourcePairs st1) = map Inr fs"
      using keep less.prems(2) by simp
    moreover have "map (deref sets) (destPairs st1) = map Inr fd"
      using keep less.prems(3) by simp
    moreover have "procs loc - Suc proc \<le> length (inbox (ringNet st1))"
      using less.prems(4) k inb i by simp
    moreover have "list_all (wellFormed (sendTwo loc))
                     (take (procs loc - Suc proc) (inbox (ringNet st1)))"
      using wfs k i by simp
    ultimately obtain st2 where
      "ring cfg ignorePublic sets r loc (Suc proc) st1 = Inr st2"
      using less.hyps[of "Suc proc" st1] by blast
    with h True show ?thesis by (subst ring.simps) simp
  qed
qed

lemma packFirst_one_set:
  assumes one: "\<not> sendTwo loc"
    and sp: "sourcePublish loc = length (filter (published ignorePublic) (pairs (sets (source' r))))"
    and empty: "getBuffer out st = []" "position st = 0"
  shows "\<exists>sps st1. packFirst cfg ignorePublic sets r loc out st = Inr st1
           \<and> sourcePairs st1 = sps \<and> destPairs st1 = sps \<and> ringNet st1 = ringNet st
           \<and> map (deref sets) sps =
               map Inr (filter (published ignorePublic) (pairs (sets (source' r))))"
proof -
  let ?fs = "filter (published ignorePublic) (pairs (sets (source' r)))"
  let ?hdr = "[CharItem 0, IntItem (sourcePublish loc), IntItem (destPublish loc)]"
  have h3: "MPI_Pack (IntItem (destPublish loc))
              (fst (MPI_Pack (IntItem (sourcePublish loc))
                 (fst (MPI_Pack (CharItem (if sendTwo loc then 1 else 0)) (getBuffer out st)
                    (position st)))
                 (snd (MPI_Pack (CharItem (if sendTwo loc then 1 else 0)) (getBuffer out st)
                    (position st)))))
              (snd (MPI_Pack (IntItem (sourcePublish loc))
                 (fst (MPI_Pack (CharItem (if sendTwo loc then 1 else 0)) (getBuffer out st)
                    (position st)))
                 (snd (MPI_Pack (CharItem (if sendTwo loc then 1 else 0)) (getBuffer out st)
                    (position st))))) = (?hdr, 3)"
    using one empty by (simp add: MPI_Pack_def)
  have "3 = length ?hdr" by simp
  from packEntries_result
         [where pos = 3 and p_out = ?hdr and n = "sourcePublish loc" and s = "source' r"
            and sets = sets and ignorePublic = ignorePublic and cfg = cfg, OF this sp]
  obtain sps where
    s: "packEntries cfg ignorePublic sets (source' r) ?hdr 3 (sourcePublish loc) =
          Inr (sps, ?hdr @ map PairItem ?fs, 3 + sourcePublish loc)"
       "map (deref sets) sps = map Inr ?fs"
    by blast
  have "packFirst cfg ignorePublic sets r loc out st =
          Inr ((setBuffer out (?hdr @ map PairItem ?fs) st)
                 \<lparr>position := 3 + sourcePublish loc, sourcePairs := sps, destPairs := sps\<rparr>)"
    unfolding packFirst_def Let_def h3 using one s(1) by simp
  with s(2) show ?thesis by simp
qed

lemma hop_first_returns:
  assumes procs: "0 < procs loc"
    and two: "sendTwo loc = (source' r \<noteq> target' r)"
    and sp: "sourcePublish loc = length (filter (published ignorePublic) (pairs (sets (source' r))))"
    and dp: "sendTwo loc \<Longrightarrow>
             destPublish loc = length (filter (published ignorePublic) (pairs (sets (target' r))))"
    and empty: "buffer0 st = []" "buffer1 st = []" "position st = 0"
  shows "\<exists>st1. hop cfg ignorePublic sets r loc 0 st = Inr st1
           \<and> map (deref sets) (sourcePairs st1) =
               map Inr (filter (published ignorePublic) (pairs (sets (source' r))))
           \<and> map (deref sets) (destPairs st1) =
               map Inr (filter (published ignorePublic) (pairs (sets (target' r))))
           \<and> inbox (ringNet st1) = inbox (ringNet st)"
proof (cases "sendTwo loc")
  case False
  from empty have e: "getBuffer 0 st = []" by (simp add: getBuffer_def)
  from packFirst_one_set
         [where loc = loc and ignorePublic = ignorePublic and sets = sets and r = r
            and out = 0 and st = st and cfg = cfg, OF False sp e empty(3)]
  obtain sps st1 where
    p: "packFirst cfg ignorePublic sets r loc 0 st = Inr st1"
    and k: "sourcePairs st1 = sps" "destPairs st1 = sps" "ringNet st1 = ringNet st"
    and d: "map (deref sets) sps =
              map Inr (filter (published ignorePublic) (pairs (sets (source' r))))"
    by blast
  from False two have same: "target' r = source' r" by simp
  have "hop cfg ignorePublic sets r loc 0 st = Inr st1"
    using procs False p by (simp add: hop_def Let_def)
  with k d same show ?thesis by simp
next
  case True
  let ?fs = "filter (published ignorePublic) (pairs (sets (source' r)))"
  let ?fd = "filter (published ignorePublic) (pairs (sets (target' r)))"
  let ?msg = "[CharItem 1, IntItem (sourcePublish loc), IntItem (destPublish loc)]
              @ map PairItem ?fs @ map PairItem ?fd"
  from empty have e: "getBuffer 1 st = []" by (simp add: getBuffer_def)
  from packFirst_two_sets
         [where loc = loc and ignorePublic = ignorePublic and sets = sets and r = r
            and out = 1 and st = st and cfg = cfg, OF True sp dp[OF True] e empty(3)]
  obtain sps dps where
    p: "packFirst cfg ignorePublic sets r loc 1 st =
          Inr ((setBuffer 1 ?msg st)
                 \<lparr>position := 3 + sourcePublish loc + destPublish loc,
                  sourcePairs := sps, destPairs := dps\<rparr>)"
    and d: "map (deref sets) sps = map Inr ?fs" "map (deref sets) dps = map Inr ?fd"
    by blast
  let ?st1 = "(setBuffer 1 ?msg st)
                \<lparr>position := 3 + sourcePublish loc + destPublish loc,
                 sourcePairs := sps, destPairs := dps\<rparr>"
  let ?st2 = "MPI_Sendrecv loc 1 0 ?st1"
  have b: "getBuffer (0 mod 2) ?st2 = ?msg"
    using sp dp[OF True]
    by (simp add: MPI_Sendrecv_def Let_def getBuffer_def setBuffer_def)
  have k: "sourcePairs ?st2 = sps" "destPairs ?st2 = dps"
    "inbox (ringNet ?st2) = inbox (ringNet st)"
    by (simp_all add: MPI_Sendrecv_def Let_def setBuffer_def)
  have wf: "wellFormed (sendTwo loc) (getBuffer (0 mod 2) ?st2)"
    unfolding b using True sp dp[OF True]
    by (auto simp: announced_def list_all_iff)
  from processMessage_returns[of sets ?st2 ?fs ?fd loc 0, OF _ _ sp dp wf] d k
  obtain st3 where
    m: "processMessage sets loc 0 ?st2 = Inr st3" "sourcePairs st3 = sourcePairs ?st2"
    "destPairs st3 = destPairs ?st2" "ringNet st3 = ringNet ?st2"
    by auto
  have "hop cfg ignorePublic sets r loc 0 st = Inr st3"
    using procs True p m(1) by (simp add: hop_def Let_def)
  with m k d show ?thesis by simp
qed

lemma buildRemote_returns:
  assumes len: "commSize (comm' r) - 1 \<le> length (inbox net)"
    and wf: "list_all (wellFormed (source' r \<noteq> target' r))
               (take (commSize (comm' r) - 1) (inbox net))"
  shows "\<exists>r1 h1 net1. buildRemote cfg ignorePublic sets (r, h, net) = Inr (r1, h1, net1)"
proof -
  let ?loc = "buildLocals ignorePublic sets r"
  let ?n = "sourcePublish ?loc + destPublish ?loc"
  let ?st0 = "\<lparr>ringMap = remoteIndices' r, ringHeap = h,
               ringNet = net\<lparr>traffic := traffic net @ [Allreduce ?n]\<rparr>,
               buffer0 = [], buffer1 = [], position = 0, sourcePairs = [], destPairs = []\<rparr>"
  let ?fs = "filter (published ignorePublic) (pairs (sets (source' r)))"
  let ?fd = "filter (published ignorePublic) (pairs (sets (target' r)))"
  have two: "sendTwo ?loc = (source' r \<noteq> target' r)" by (simp add: buildLocals_def)
  have pr: "procs ?loc = commSize (comm' r)" by (simp add: buildLocals_def)
  have sp: "sourcePublish ?loc = length ?fs"
    using publish_count[of ignorePublic "sets (source' r)"] by (simp add: buildLocals_def)
  have dp: "sendTwo ?loc \<Longrightarrow> destPublish ?loc = length ?fd"
    using publish_count[of ignorePublic "sets (target' r)"] by (simp add: buildLocals_def)
  have "\<exists>st. ring cfg ignorePublic sets r ?loc 0 ?st0 = Inr st"
  proof (cases "0 < procs ?loc")
    case False
    then show ?thesis by (subst ring.simps) simp
  next
    case True
    from hop_first_returns[OF True two sp dp, of ?st0 cfg] obtain st1 where
      h: "hop cfg ignorePublic sets r ?loc 0 ?st0 = Inr st1"
      and s: "map (deref sets) (sourcePairs st1) = map Inr ?fs"
      and d: "map (deref sets) (destPairs st1) = map Inr ?fd"
      and i: "inbox (ringNet st1) = inbox (ringNet ?st0)"
      by auto
    have l: "procs ?loc - Suc 0 \<le> length (inbox (ringNet st1))"
      using len i pr by simp
    have w: "list_all (wellFormed (sendTwo ?loc))
               (take (procs ?loc - Suc 0) (inbox (ringNet st1)))"
      using wf i pr two by simp
    from ring_returns[OF sp dp _ s d l w, of cfg ignorePublic r] obtain st2 where
      "ring cfg ignorePublic sets r ?loc (Suc 0) st1 = Inr st2" by auto
    with h True show ?thesis by (subst ring.simps) simp
  qed
  then obtain st where "ring cfg ignorePublic sets r ?loc 0 ?st0 = Inr st" by blast
  then show ?thesis by (simp add: buildRemote_def Let_def)
qed

lemma rebuild_returns:
  assumes own: "distinct (blocks (remoteIndices' r))"
      "set (blocks (remoteIndices' r)) \<subseteq> dom (cells h)"
    and len: "commSize (comm' r) - 1 \<le> length (inbox net)"
    and wf: "list_all (wellFormed (source' r \<noteq> target' r))
               (take (commSize (comm' r) - 1) (inbox net))"
  shows "\<exists>r1 h1 net1. rebuild cfg ignorePublic sets (r, h, net) = Inr (r1, h1, net1)"
proof (cases "firstBuild r \<or> ignorePublic \<noteq> publicIgnored r \<or> \<not> isSynced sets r")
  case False
  then show ?thesis by (simp add: rebuild_def Let_def)
next
  case True
  let ?r2 = "r\<lparr>remoteIndices' := [], firstBuild := True\<rparr>"
  from free_loop_blocks[OF own] obtain h2 where
    f: "free (r, h) = Inr (?r2, h2)" by (simp add: free_def)
  from len wf have "commSize (comm' ?r2) - 1 \<le> length (inbox net)"
    "list_all (wellFormed (source' ?r2 \<noteq> target' ?r2))
       (take (commSize (comm' ?r2) - 1) (inbox net))" by simp_all
  from buildRemote_returns[OF this, of cfg ignorePublic sets h2] obtain r3 h3 net3 where
    "buildRemote cfg ignorePublic sets (?r2, h2, net) = Inr (r3, h3, net3)" by blast
  with True f show ?thesis by (simp add: rebuild_def Let_def)
qed

section \<open>When a rebuild runs the protocol\<close>

text \<open>
  C3. When this is not the first build, the flag is that of the last build and the
  registry is synced, \<open>rebuild<flag>()\<close> returns at once and changes nothing. When this
  is the first build, or the flag differs from that of the last build, or the registry
  is not synced, \<open>rebuild<flag>()\<close> returns exactly if \<open>free()\<close> and then \<open>buildRemote\<close>
  on the emptied registry return, with the heap and the network that \<open>buildRemote\<close>
  leaves and with its registry, the two sequence numbers recorded, \<open>firstBuild\<close> cleared
  and the flag stored; the calls it has then added to the traffic are those of the
  discovery protocol: the \<open>MPI_Allreduce\<close> of the number of published records, the
  exchanges of the passes round the ring, and the \<open>MPI_Barrier\<close>. So, whenever
  \<open>rebuild<flag>()\<close> returns, it has communicated exactly if one of the three conditions
  held, and a second \<open>rebuild<flag>()\<close> with the same flag on the state the first one
  left, the index sets being the same, returns with the registry, the heap and the
  traffic unchanged. And \<open>rebuild<flag>()\<close> does return when the registry owns live
  lists, none shared between two entries, and the network delivers a well-formed message
  for every other process of the communicator.
\<close>

theorem rebuild_runs_protocol_iff:
  "(\<not> (firstBuild r \<or> ignorePublic \<noteq> publicIgnored r \<or> \<not> isSynced sets r) \<longrightarrow>
      rebuild cfg ignorePublic sets (r, h, net) = Inr (r, h, net))
   \<and> ((firstBuild r \<or> ignorePublic \<noteq> publicIgnored r \<or> \<not> isSynced sets r) \<longrightarrow>
        (rebuild cfg ignorePublic sets (r, h, net) = Inr (r1, h1, net1)) =
        (\<exists>r2 h2 r3. free (r, h) = Inr (r2, h2)
           \<and> buildRemote cfg ignorePublic sets (r2, h2, net) = Inr (r3, h1, net1)
           \<and> r1 = r3\<lparr>sourceSeqNo' := seqNo (sets (source' r3)),
                      destSeqNo' := seqNo (sets (target' r3)),
                      firstBuild := False, publicIgnored := ignorePublic\<rparr>))
   \<and> (rebuild cfg ignorePublic sets (r, h, net) = Inr (r1, h1, net1) \<longrightarrow>
        (traffic net1 \<noteq> traffic net) =
          (firstBuild r \<or> ignorePublic \<noteq> publicIgnored r \<or> \<not> isSynced sets r)
        \<and> ((firstBuild r \<or> ignorePublic \<noteq> publicIgnored r \<or> \<not> isSynced sets r) \<longrightarrow>
             (\<exists>evs. traffic net1 = traffic net @ evs
                   \<and> map shape evs = protocolEvents (buildLocals ignorePublic sets r)))
        \<and> rebuild cfg ignorePublic sets (r1, h1, net1) = Inr (r1, h1, net1))
   \<and> (distinct (blocks (remoteIndices' r))
        \<and> set (blocks (remoteIndices' r)) \<subseteq> dom (cells h)
        \<and> commSize (comm' r) - 1 \<le> length (inbox net)
        \<and> list_all (wellFormed (source' r \<noteq> target' r))
             (take (commSize (comm' r) - 1) (inbox net)) \<longrightarrow>
        (\<exists>ra ha neta. rebuild cfg ignorePublic sets (r, h, net) = Inr (ra, ha, neta)))"
proof (intro conjI impI)
  assume "\<not> (firstBuild r \<or> ignorePublic \<noteq> publicIgnored r \<or> \<not> isSynced sets r)"
  then show "rebuild cfg ignorePublic sets (r, h, net) = Inr (r, h, net)"
    by (simp add: rebuild_def Let_def)
next
  assume "firstBuild r \<or> ignorePublic \<noteq> publicIgnored r \<or> \<not> isSynced sets r"
  from rebuild_needed[OF this] show
    "(rebuild cfg ignorePublic sets (r, h, net) = Inr (r1, h1, net1)) =
     (\<exists>r2 h2 r3. free (r, h) = Inr (r2, h2)
        \<and> buildRemote cfg ignorePublic sets (r2, h2, net) = Inr (r3, h1, net1)
        \<and> r1 = r3\<lparr>sourceSeqNo' := seqNo (sets (source' r3)),
                   destSeqNo' := seqNo (sets (target' r3)),
                   firstBuild := False, publicIgnored := ignorePublic\<rparr>)" .
next
  assume a: "rebuild cfg ignorePublic sets (r, h, net) = Inr (r1, h1, net1)"
  from rebuild_returned[OF a] show
    "(traffic net1 \<noteq> traffic net) =
       (firstBuild r \<or> ignorePublic \<noteq> publicIgnored r \<or> \<not> isSynced sets r)"
    by blast
  from rebuild_returned[OF a] show
    "rebuild cfg ignorePublic sets (r1, h1, net1) = Inr (r1, h1, net1)"
    by blast
  assume "firstBuild r \<or> ignorePublic \<noteq> publicIgnored r \<or> \<not> isSynced sets r"
  with rebuild_returned[OF a] show
    "\<exists>evs. traffic net1 = traffic net @ evs
           \<and> map shape evs = protocolEvents (buildLocals ignorePublic sets r)"
    by blast
next
  assume "distinct (blocks (remoteIndices' r))
          \<and> set (blocks (remoteIndices' r)) \<subseteq> dom (cells h)
          \<and> commSize (comm' r) - 1 \<le> length (inbox net)
          \<and> list_all (wellFormed (source' r \<noteq> target' r))
               (take (commSize (comm' r) - 1) (inbox net))"
  then show "\<exists>ra ha neta. rebuild cfg ignorePublic sets (r, h, net) = Inr (ra, ha, neta)"
    using rebuild_returns[of r h net cfg ignorePublic sets] by blast
qed

theorem rebuild_runs_protocol_iff_witness:
  "rebuild exampleBuild False exampleSets
     (RemoteIndices_ctor 1 1 twoProcesses, emptyHeap, \<lparr>inbox = [peerMessage], traffic = []\<rparr>) =
   Inr (RemoteIndices_ctor 1 1 twoProcesses
          \<lparr>sourceSeqNo' := 4, destSeqNo' := 4, firstBuild := False,
           remoteIndices' := [(1, (0, 0))]\<rparr>,
        \<lparr>cells = [0 \<mapsto> [RemoteIndex_attr_local 7 (Ptr 1 2)]], nextFree = 1, freed = []\<rparr>,
        \<lparr>inbox = [],
         traffic = [Allreduce 2,
                    Ssend 1 [CharItem 0, IntItem 2, IntItem 0,
                             PairItem (examplePair 1 0 0 True),
                             PairItem (examplePair 5 2 1 True)],
                    Recv 1, Barrier]\<rparr>)
   \<and> firstBuild (RemoteIndices_ctor 1 1 twoProcesses)
   \<and> distinct (blocks (remoteIndices' (RemoteIndices_ctor 1 1 twoProcesses)))
   \<and> set (blocks (remoteIndices' (RemoteIndices_ctor 1 1 twoProcesses)))
       \<subseteq> dom (cells emptyHeap)
   \<and> commSize (comm' (RemoteIndices_ctor 1 1 twoProcesses)) - 1 \<le> length [peerMessage]
   \<and> list_all (wellFormed False) [peerMessage]
   \<and> (\<exists>ra ha neta.
        rebuild exampleBuild False exampleSets
          (RemoteIndices_ctor 1 1 twoProcesses, emptyHeap,
           \<lparr>inbox = [peerMessage], traffic = []\<rparr>) = Inr (ra, ha, neta))
   \<and> protocolEvents (buildLocals False exampleSets (RemoteIndices_ctor 1 1 twoProcesses)) =
       [Allreduce 2, Ssend 1 [], Recv 1, Barrier]
   \<and> (\<exists>r2 h2 r3.
        free (RemoteIndices_ctor 1 1 twoProcesses, emptyHeap) = Inr (r2, h2)
        \<and> buildRemote exampleBuild False exampleSets
            (r2, h2, \<lparr>inbox = [peerMessage], traffic = []\<rparr>) =
          Inr (r3,
               \<lparr>cells = [0 \<mapsto> [RemoteIndex_attr_local 7 (Ptr 1 2)]], nextFree = 1,
                freed = []\<rparr>,
               \<lparr>inbox = [],
                traffic = [Allreduce 2,
                           Ssend 1 [CharItem 0, IntItem 2, IntItem 0,
                                    PairItem (examplePair 1 0 0 True),
                                    PairItem (examplePair 5 2 1 True)],
                           Recv 1, Barrier]\<rparr>))
   \<and> rebuild exampleBuild False exampleSets
       (RemoteIndices_ctor 1 1 twoProcesses
          \<lparr>sourceSeqNo' := 4, destSeqNo' := 4, firstBuild := False,
           remoteIndices' := [(1, (0, 0))]\<rparr>,
        \<lparr>cells = [0 \<mapsto> [RemoteIndex_attr_local 7 (Ptr 1 2)]], nextFree = 1, freed = []\<rparr>,
        \<lparr>inbox = [],
         traffic = [Allreduce 2,
                    Ssend 1 [CharItem 0, IntItem 2, IntItem 0,
                             PairItem (examplePair 1 0 0 True),
                             PairItem (examplePair 5 2 1 True)],
                    Recv 1, Barrier]\<rparr>) =
     Inr (RemoteIndices_ctor 1 1 twoProcesses
            \<lparr>sourceSeqNo' := 4, destSeqNo' := 4, firstBuild := False,
             remoteIndices' := [(1, (0, 0))]\<rparr>,
          \<lparr>cells = [0 \<mapsto> [RemoteIndex_attr_local 7 (Ptr 1 2)]], nextFree = 1, freed = []\<rparr>,
          \<lparr>inbox = [],
           traffic = [Allreduce 2,
                      Ssend 1 [CharItem 0, IntItem 2, IntItem 0,
                               PairItem (examplePair 1 0 0 True),
                               PairItem (examplePair 5 2 1 True)],
                      Recv 1, Barrier]\<rparr>)"
proof -
  let ?r = "RemoteIndices_ctor 1 1 twoProcesses"
  let ?net = "\<lparr>inbox = [peerMessage], traffic = []\<rparr>"
  let ?r1 = "RemoteIndices_ctor 1 1 twoProcesses
               \<lparr>sourceSeqNo' := 4, destSeqNo' := 4, firstBuild := False,
                remoteIndices' := [(1, (0, 0))]\<rparr>"
  let ?h1 = "\<lparr>cells = [0 \<mapsto> [RemoteIndex_attr_local 7 (Ptr 1 2)]], nextFree = 1,
              freed = []\<rparr>"
  let ?net1 = "\<lparr>inbox = [],
                traffic = [Allreduce 2,
                           Ssend 1 [CharItem 0, IntItem 2, IntItem 0,
                                    PairItem (examplePair 1 0 0 True),
                                    PairItem (examplePair 5 2 1 True)],
                           Recv 1, Barrier]\<rparr>"
  have run: "rebuild exampleBuild False exampleSets (?r, emptyHeap, ?net) = Inr (?r1, ?h1, ?net1)"
    by (simp add: run_simps)
  have first: "firstBuild ?r"
    by (simp add: RemoteIndices_ctor_def)
  have events: "protocolEvents (buildLocals False exampleSets ?r) =
                  [Allreduce 2, Ssend 1 [], Recv 1, Barrier]"
    by (simp add: protocolEvents_def hopEvents_def run_simps)
  note inst = rebuild_runs_protocol_iff
               [of ?r False exampleSets exampleBuild emptyHeap ?net ?r1 ?h1 ?net1]
  from inst run first have
    parts: "\<exists>r2 h2 r3. free (?r, emptyHeap) = Inr (r2, h2)
              \<and> buildRemote exampleBuild False exampleSets (r2, h2, ?net) = Inr (r3, ?h1, ?net1)
              \<and> ?r1 = r3\<lparr>sourceSeqNo' := seqNo (exampleSets (source' r3)),
                          destSeqNo' := seqNo (exampleSets (target' r3)),
                          firstBuild := False, publicIgnored := False\<rparr>"
    by blast
  from inst run have
    again: "rebuild exampleBuild False exampleSets (?r1, ?h1, ?net1) = Inr (?r1, ?h1, ?net1)"
    by blast
  have own: "distinct (blocks (remoteIndices' ?r))"
    "set (blocks (remoteIndices' ?r)) \<subseteq> dom (cells emptyHeap)"
    by (simp_all add: RemoteIndices_ctor_def)
  have len: "commSize (comm' ?r) - 1 \<le> length [peerMessage]"
    by (simp add: RemoteIndices_ctor_def twoProcesses_def)
  have wf: "list_all (wellFormed False) [peerMessage]"
    by (simp add: peerMessage_def announced_def)
  have two: "(source' ?r \<noteq> target' ?r) = False"
    by (simp add: RemoteIndices_ctor_def)
  have "commSize (comm' ?r) - 1 = 1"
    by (simp add: RemoteIndices_ctor_def twoProcesses_def)
  with wf two have
    wf2: "list_all (wellFormed (source' ?r \<noteq> target' ?r))
            (take (commSize (comm' ?r) - 1) (inbox ?net))"
    by simp
  from len have len2: "commSize (comm' ?r) - 1 \<le> length (inbox ?net)" by simp
  from inst own len2 wf2 have
    returns: "\<exists>ra ha neta. rebuild exampleBuild False exampleSets (?r, emptyHeap, ?net) =
                Inr (ra, ha, neta)"
    by blast
  from parts have
    both: "\<exists>r2 h2 r3. free (?r, emptyHeap) = Inr (r2, h2)
       \<and> buildRemote exampleBuild False exampleSets (r2, h2, ?net) = Inr (r3, ?h1, ?net1)"
    by blast
  from run first own len wf returns events both again show ?thesis by blast
qed

section \<open>The own rank after a build\<close>

lemma hop_first_own:
  assumes two: "sendTwo loc"
    and sp: "sourcePublish loc = length (filter (published ignorePublic) (pairs (sets (source' r))))"
    and dp: "destPublish loc = length (filter (published ignorePublic) (pairs (sets (target' r))))"
    and fresh: "buffer1 st = []" "position st = 0"
    and rk: "rank loc < procs loc"
    and asc: "ascending (pairs (sets (source' r)))" "ascending (pairs (sets (target' r)))"
    and shared: "\<exists>x\<in>set (pairs (sets (source' r))). \<exists>y\<in>set (pairs (sets (target' r))).
                   global x = global y \<and> published ignorePublic x \<and> published ignorePublic y"
  shows "\<exists>st1 msg. hop cfg ignorePublic sets r loc 0 st = Inr st1
           \<and> rank loc \<in> fst ` set (ringMap st1)
           \<and> traffic (ringNet st1) = traffic (ringNet st) @ [Sendrecv (rank loc) msg]"
proof -
  let ?fs = "filter (published ignorePublic) (pairs (sets (source' r)))"
  let ?fd = "filter (published ignorePublic) (pairs (sets (target' r)))"
  let ?msg = "[CharItem 1, IntItem (sourcePublish loc), IntItem (destPublish loc)]
              @ map PairItem ?fs @ map PairItem ?fd"
  have e: "getBuffer 1 st = []" using fresh(1) by (simp add: getBuffer_def)
  from packFirst_two_sets[OF two sp dp e fresh(2), of cfg] obtain sps dps where
    pk: "packFirst cfg ignorePublic sets r loc 1 st =
           Inr ((setBuffer 1 ?msg st)
                  \<lparr>position := 3 + sourcePublish loc + destPublish loc,
                   sourcePairs := sps, destPairs := dps\<rparr>)"
    and sps: "map (deref sets) sps = map Inr ?fs"
    and dps: "map (deref sets) dps = map Inr ?fd"
    by blast
  let ?stp = "(setBuffer 1 ?msg st)
                \<lparr>position := 3 + sourcePublish loc + destPublish loc,
                 sourcePairs := sps, destPairs := dps\<rparr>"
  let ?sts = "MPI_Sendrecv loc 1 0 ?stp"
  have len: "length ?msg = 3 + sourcePublish loc + destPublish loc" using sp dp by simp
  have b: "getBuffer (0 mod 2) ?sts =
             [CharItem 1, IntItem (length ?fs), IntItem (length ?fd)]
             @ map PairItem ?fs @ map PairItem ?fd"
    using sp dp by (simp add: MPI_Sendrecv_def getBuffer_def setBuffer_def Let_def)
  have s1: "map (deref sets) (sourcePairs ?sts) = map Inr ?fs"
    using sps by (simp add: MPI_Sendrecv_def setBuffer_def Let_def)
  have d1: "map (deref sets) (destPairs ?sts) = map Inr ?fd"
    using dps by (simp add: MPI_Sendrecv_def setBuffer_def Let_def)
  from shared have sh: "\<exists>x\<in>set ?fs. \<exists>y\<in>set ?fd. global x = global y" by auto
  from processMessage_own
         [OF two sp dp b s1 d1 ascending_filter[OF asc(1)] ascending_filter[OF asc(2)] sh]
  obtain st1 v where
    pm: "processMessage sets loc 0 ?sts = Inr st1"
    and mp: "ringMap st1 = map_insert ((rank loc + procs loc - 0) mod procs loc) v (ringMap ?sts)"
    by blast
  have h: "hop cfg ignorePublic sets r loc 0 st = Inr st1"
    using two pk pm by (simp add: hop_def Let_def)
  have "(rank loc + procs loc - 0) mod procs loc = rank loc" using rk by simp
  with mp have k: "rank loc \<in> fst ` set (ringMap st1)"
    by (simp add: map_insert_keys)
  have "traffic (ringNet st1) = traffic (ringNet ?sts)"
    using processMessage_ringNet[OF pm] by simp
  then have "traffic (ringNet st1) =
               traffic (ringNet st) @ [Sendrecv (rank loc) (take (position ?stp) (getBuffer 1 ?stp))]"
    by (simp add: MPI_Sendrecv_def Let_def)
  with h k show ?thesis by blast
qed

lemma buildRemote_own:
  assumes distinct: "source' r \<noteq> target' r"
    and comm: "commRank (comm' r) < commSize (comm' r)"
    and asc: "ascending (pairs (sets (source' r)))" "ascending (pairs (sets (target' r)))"
    and shared: "\<exists>x\<in>set (pairs (sets (source' r))). \<exists>y\<in>set (pairs (sets (target' r))).
                   global x = global y \<and> published ignorePublic x \<and> published ignorePublic y"
    and ret: "buildRemote cfg ignorePublic sets (r, h, net) = Inr (r1, h1, net1)"
  shows "commRank (comm' r) \<in> fst ` set (remoteIndices' r1)
       \<and> (\<exists>msg. Sendrecv (commRank (comm' r)) msg \<in> set (traffic net1))"
proof -
  let ?loc = "buildLocals ignorePublic sets r"
  let ?st0 = "\<lparr>ringMap = remoteIndices' r, ringHeap = h,
               ringNet = net\<lparr>traffic := traffic net
                              @ [Allreduce (sourcePublish ?loc + destPublish ?loc)]\<rparr>,
               buffer0 = [], buffer1 = [], position = 0, sourcePairs = [], destPairs = []\<rparr>"
  from ret obtain st where
    rg: "ring cfg ignorePublic sets r ?loc 0 ?st0 = Inr st"
    by (cases "ring cfg ignorePublic sets r ?loc 0 ?st0") (auto simp: buildRemote_def Let_def)
  with ret have r1: "remoteIndices' r1 = ringMap st"
    and n1: "traffic net1 = traffic (ringNet st) @ [Barrier]"
    by (auto simp: buildRemote_def Let_def)
  have two: "sendTwo ?loc" using distinct by (simp add: buildLocals_def)
  have sp: "sourcePublish ?loc =
              length (filter (published ignorePublic) (pairs (sets (source' r))))"
    using publish_count[of ignorePublic "sets (source' r)"] by (simp add: buildLocals_def)
  have dp: "destPublish ?loc =
              length (filter (published ignorePublic) (pairs (sets (target' r))))"
    using publish_count[of ignorePublic "sets (target' r)"] distinct
    by (simp add: buildLocals_def)
  have rk: "rank ?loc < procs ?loc" using comm by (simp add: buildLocals_def)
  have rank: "rank ?loc = commRank (comm' r)" by (simp add: buildLocals_def)
  from hop_first_own[OF two sp dp _ _ rk asc shared, of ?st0 cfg] obtain sta msg where
    h: "hop cfg ignorePublic sets r ?loc 0 ?st0 = Inr sta"
    and k: "rank ?loc \<in> fst ` set (ringMap sta)"
    and t: "traffic (ringNet sta) = traffic (ringNet ?st0) @ [Sendrecv (rank ?loc) msg]"
    by auto
  from rg h rk have rest: "ring cfg ignorePublic sets r ?loc (Suc 0) sta = Inr st"
    by (subst (asm) ring.simps) simp
  from ring_keys[OF rest] k r1 rank have
    "commRank (comm' r) \<in> fst ` set (remoteIndices' r1)" by auto
  moreover from ring_traffic[OF rest] t n1 rank have
    "Sendrecv (commRank (comm' r)) msg \<in> set (traffic net1)" by auto
  ultimately show ?thesis by blast
qed

text \<open>
  C10. A process whose source and target index sets are distinct objects, both sorted,
  and share a published global index runs \<open>rebuild\<close> (a first build, a changed flag or
  an unsynced registry). Whenever the call returns, the process has sent a message to
  and received it from its own rank, and the registry holds an entry under the process's
  own rank: the traversal from \<open>begin()\<close> to \<open>end()\<close> meets it and \<open>neighbours()\<close> counts
  it.
\<close>

theorem rebuild_enters_own_rank:
  assumes distinct: "source' r \<noteq> target' r"
    and comm: "commRank (comm' r) < commSize (comm' r)"
    and asc: "ascending (pairs (sets (source' r)))" "ascending (pairs (sets (target' r)))"
    and shared: "\<exists>x\<in>set (pairs (sets (source' r))). \<exists>y\<in>set (pairs (sets (target' r))).
                   global x = global y \<and> published ignorePublic x \<and> published ignorePublic y"
    and runs: "firstBuild r \<or> ignorePublic \<noteq> publicIgnored r \<or> \<not> isSynced sets r"
    and ret: "rebuild cfg ignorePublic sets (r, h, net) = Inr (r1, h1, net1)"
  shows "commRank (comm' r) \<in> fst ` set (remoteIndices' r1)
       \<and> 0 < neighbours r1
       \<and> (\<exists>msg. Sendrecv (commRank (comm' r)) msg \<in> set (traffic net1))"
proof -
  from ret runs obtain r2 h2 where f: "free (r, h) = Inr (r2, h2)"
    by (cases "free (r, h)") (auto simp: rebuild_def Let_def)
  then have r2: "r2 = r\<lparr>remoteIndices' := [], firstBuild := True\<rparr>"
    by (auto simp: free_def split: sum.splits)
  from ret runs f obtain r3 h3 net3 where
    b: "buildRemote cfg ignorePublic sets (r2, h2, net) = Inr (r3, h3, net3)"
    by (cases "buildRemote cfg ignorePublic sets (r2, h2, net)")
       (auto simp: rebuild_def Let_def)
  from ret runs f b have
    m: "remoteIndices' r1 = remoteIndices' r3" and n: "net1 = net3"
    by (auto simp: rebuild_def Let_def)
  have "commRank (comm' r2) \<in> fst ` set (remoteIndices' r3)
        \<and> (\<exists>msg. Sendrecv (commRank (comm' r2)) msg \<in> set (traffic net3))"
    using distinct comm asc shared by (intro buildRemote_own[OF _ _ _ _ _ b]) (simp_all add: r2)
  with m n have
    k: "commRank (comm' r) \<in> fst ` set (remoteIndices' r1)"
    and s: "\<exists>msg. Sendrecv (commRank (comm' r)) msg \<in> set (traffic net1)"
    by (simp_all add: r2)
  from k have "remoteIndices' r1 \<noteq> []" by auto
  then have "0 < neighbours r1" by (simp add: neighbours_def)
  with k s show ?thesis by blast
qed

theorem rebuild_enters_own_rank_witness:
  "source' (RemoteIndices_ctor 1 2 exampleComm) \<noteq> target' (RemoteIndices_ctor 1 2 exampleComm)
   \<and> ascending (pairs (exampleSets 1)) \<and> ascending (pairs (exampleSets 2))
   \<and> global (examplePair 5 2 1 True) = global (examplePair 5 0 0 True)
   \<and> examplePair 5 2 1 True \<in> set (pairs (exampleSets 1))
   \<and> examplePair 5 0 0 True \<in> set (pairs (exampleSets 2))
   \<and> (case rebuild exampleBuild False exampleSets
              (RemoteIndices_ctor 1 2 exampleComm, emptyHeap, quietNetwork) of
         Inl f \<Rightarrow> False
       | Inr (r1, h1, net1) \<Rightarrow>
           commRank exampleComm \<in> fst ` set (remoteIndices' r1)
           \<and> remoteIndices' r1 = [(0, (1, 0))]
           \<and> neighbours r1 = 1
           \<and> cells h1 1 = Some [RemoteIndex_attr_local 0 (Ptr 1 2)]
           \<and> cells h1 0 = Some [RemoteIndex_attr_local 1 (Ptr 2 0)]
           \<and> traffic net1 =
               [Allreduce 4,
                Sendrecv 0 [CharItem 1, IntItem 2, IntItem 2,
                            PairItem (examplePair 1 0 0 True),
                            PairItem (examplePair 5 2 1 True),
                            PairItem (examplePair 5 0 0 True),
                            PairItem (examplePair 7 1 2 True)],
                Barrier])"
proof -
  let ?r = "RemoteIndices_ctor 1 2 exampleComm"
  have ev:
    "case rebuild exampleBuild False exampleSets (?r, emptyHeap, quietNetwork) of
       Inl f \<Rightarrow> False
     | Inr (r1, h1, net1) \<Rightarrow>
         remoteIndices' r1 = [(0, (1, 0))]
         \<and> cells h1 1 = Some [RemoteIndex_attr_local 0 (Ptr 1 2)]
         \<and> cells h1 0 = Some [RemoteIndex_attr_local 1 (Ptr 2 0)]
         \<and> traffic net1 =
             [Allreduce 4,
              Sendrecv 0 [CharItem 1, IntItem 2, IntItem 2,
                          PairItem (examplePair 1 0 0 True),
                          PairItem (examplePair 5 2 1 True),
                          PairItem (examplePair 5 0 0 True),
                          PairItem (examplePair 7 1 2 True)],
              Barrier]"
    by (simp add: run_simps)
  then obtain r1 h1 net1 where
    run: "rebuild exampleBuild False exampleSets (?r, emptyHeap, quietNetwork) =
            Inr (r1, h1, net1)"
    and m: "remoteIndices' r1 = [(0, (1, 0))]"
      "cells h1 1 = Some [RemoteIndex_attr_local 0 (Ptr 1 2)]"
      "cells h1 0 = Some [RemoteIndex_attr_local 1 (Ptr 2 0)]"
      "traffic net1 =
         [Allreduce 4,
          Sendrecv 0 [CharItem 1, IntItem 2, IntItem 2,
                      PairItem (examplePair 1 0 0 True),
                      PairItem (examplePair 5 2 1 True),
                      PairItem (examplePair 5 0 0 True),
                      PairItem (examplePair 7 1 2 True)],
          Barrier]"
    by (cases "rebuild exampleBuild False exampleSets (?r, emptyHeap, quietNetwork)") auto
  have d: "source' ?r \<noteq> target' ?r" by (simp add: RemoteIndices_ctor_def)
  have c: "commRank (comm' ?r) < commSize (comm' ?r)"
    by (simp add: RemoteIndices_ctor_def exampleComm_def)
  have a1: "ascending (pairs (sets_at_source))"
    if "sets_at_source = exampleSets (source' ?r)" for sets_at_source
    using that by (simp add: ascending_def RemoteIndices_ctor_def exampleSets_def examplePair_def)
  have a2: "ascending (pairs (sets_at_target))"
    if "sets_at_target = exampleSets (target' ?r)" for sets_at_target
    using that by (simp add: ascending_def RemoteIndices_ctor_def exampleSets_def examplePair_def)
  have x: "examplePair 5 2 1 True \<in> set (pairs (exampleSets 1))"
    and y: "examplePair 5 0 0 True \<in> set (pairs (exampleSets 2))"
    by (simp_all add: exampleSets_def)
  have g: "global (examplePair 5 2 1 True) = global (examplePair 5 0 0 True)"
    by (simp add: examplePair_def)
  have sh: "\<exists>x\<in>set (pairs (exampleSets (source' ?r))).
              \<exists>y\<in>set (pairs (exampleSets (target' ?r))).
                global x = global y \<and> published False x \<and> published False y"
  proof (intro bexI conjI)
    show "global (examplePair 5 2 1 True) = global (examplePair 5 0 0 True)" by (rule g)
    show "published False (examplePair 5 2 1 True)" "published False (examplePair 5 0 0 True)"
      by (simp_all add: published_def examplePair_def)
    show "examplePair 5 0 0 True \<in> set (pairs (exampleSets (target' ?r)))"
      using y by (simp add: RemoteIndices_ctor_def)
    show "examplePair 5 2 1 True \<in> set (pairs (exampleSets (source' ?r)))"
      using x by (simp add: RemoteIndices_ctor_def)
  qed
  have runs: "firstBuild ?r \<or> False \<noteq> publicIgnored ?r \<or> \<not> isSynced exampleSets ?r"
    by (simp add: RemoteIndices_ctor_def)
  from rebuild_enters_own_rank[OF d c a1[OF refl] a2[OF refl] sh runs run]
  have k: "commRank (comm' ?r) \<in> fst ` set (remoteIndices' r1)" by blast
  have "comm' ?r = exampleComm" by (simp add: RemoteIndices_ctor_def)
  with k have k': "commRank exampleComm \<in> fst ` set (remoteIndices' r1)" by simp
  have s1: "ascending (pairs (exampleSets 1))" and s2: "ascending (pairs (exampleSets 2))"
    by (simp_all add: ascending_def exampleSets_def examplePair_def)
  from m(1) have nb: "neighbours r1 = 1" by (simp add: neighbours_def)
  show ?thesis
    using d s1 s2 g x y k' m nb by (simp only: run sum.case prod.case simp_thms)
qed

end
